theory Spec2Isabelle
  imports Main "HOL-Library.Word"
begin

section \<open>Strings of the runtime\<close>

text \<open>
  A string of the source language is a sequence of 16-bit code units. \<open>asc\<close> reads an
  ASCII literal; \<open>pat\<close> reads the text of a regular expression, with \<open>%\<close> written for the
  backslash (which a string literal of the logic cannot hold; no pattern of the source
  contains \<open>%\<close>).
\<close>

type_synonym codeunit = "16 word"
type_synonym jsstring = "codeunit list"

definition asc :: "string \<Rightarrow> jsstring" where
  "asc s = map of_char s"

definition pat :: "string \<Rightarrow> jsstring" where
  "pat s = map (\<lambda>c. if c = CHR ''%'' then 0x5C else of_char c) s"

definition CRLF :: jsstring where
  "CRLF = [0x0D, 0x0A]"

definition isLineTerminator :: "codeunit \<Rightarrow> bool" where
  "isLineTerminator c = (c = 0x0A \<or> c = 0x0D \<or> c = 0x2028 \<or> c = 0x2029)"

text \<open>
  White space and line terminators: the characters that \<open>trim\<close> removes and that the class
  escape \<open>\s\<close> matches (the two sets are the same in ECMA-262).
\<close>

definition isWhiteSpace :: "codeunit \<Rightarrow> bool" where
  "isWhiteSpace c =
     (c = 0x09 \<or> c = 0x0A \<or> c = 0x0B \<or> c = 0x0C \<or> c = 0x0D \<or> c = 0x20 \<or> c = 0xA0
      \<or> c = 0x1680 \<or> (0x2000 \<le> c \<and> c \<le> 0x200A) \<or> c = 0x2028 \<or> c = 0x2029
      \<or> c = 0x202F \<or> c = 0x205F \<or> c = 0x3000 \<or> c = 0xFEFF)"

definition trim :: "jsstring \<Rightarrow> jsstring" where
  "trim s = rev (dropWhile isWhiteSpace (rev (dropWhile isWhiteSpace s)))"

primrec startsWith :: "jsstring \<Rightarrow> jsstring \<Rightarrow> bool" where
  "startsWith s [] = True"
| "startsWith s (n # ns) = (case s of [] \<Rightarrow> False | c # cs \<Rightarrow> c = n \<and> startsWith cs ns)"

text \<open>\<open>indexOf\<close>: the first index at which the needle occurs; \<open>None\<close> is the source's -1.\<close>

fun indexOf :: "jsstring \<Rightarrow> jsstring \<Rightarrow> nat option" where
  "indexOf [] n = (if n = [] then Some 0 else None)"
| "indexOf (c # cs) n =
     (if startsWith (c # cs) n then Some 0 else map_option Suc (indexOf cs n))"

definition includesStr :: "jsstring \<Rightarrow> jsstring \<Rightarrow> bool" where
  "includesStr s n = (indexOf s n \<noteq> None)"

definition substring :: "jsstring \<Rightarrow> nat \<Rightarrow> nat \<Rightarrow> jsstring" where
  "substring s a b = take (max a b - min a b) (drop (min a b) s)"

definition substringFrom :: "jsstring \<Rightarrow> nat \<Rightarrow> jsstring" where
  "substringFrom s a = drop a s"

text \<open>
  \<open>toLowerCase\<close>. The Unicode lower-case mapping sends to ASCII letters only the letters A-Z,
  U+0130 (to \<open>i\<close> followed by U+0307) and U+212A (to \<open>k\<close>); these are modelled. Every other
  code unit outside ASCII is mapped by Unicode to code units outside ASCII; the source only
  compares lower-cased text with ASCII literals, so the model leaves those units as they are.
\<close>

definition lowerUnit :: "codeunit \<Rightarrow> jsstring" where
  "lowerUnit c =
     (if 0x41 \<le> c \<and> c \<le> 0x5A then [c + 0x20]
      else if c = 0x0130 then [0x69, 0x0307]
      else if c = 0x212A then [0x6B]
      else [c])"

definition toLowerCase :: "jsstring \<Rightarrow> jsstring" where
  "toLowerCase s = concat (map lowerUnit s)"


section \<open>Regular expressions\<close>

subsection \<open>Patterns\<close>

datatype class_escape = Digit | NotDigit | Space | NotSpace | WordChar | NotWordChar

datatype class_item = Single codeunit | Range codeunit codeunit | Escape class_escape

text \<open>
  \<open>Chars invert items\<close> matches one code unit: a literal is \<open>Chars False [Single c]\<close>, a class
  \<open>[...]\<close> or \<open>[^...]\<close> lists its members. \<open>Group k r\<close> is the \<open>k\<close>-th capturing group,
  \<open>Repeat min max greedy r\<close> a quantifier (\<open>max = None\<close>: unbounded).
\<close>

datatype regex =
    Empty
  | Chars bool "class_item list"
  | Seq regex regex
  | Alt regex regex
  | Group nat regex
  | Repeat nat "nat option" bool regex
  | LineStart
  | LineEnd

record flags =
  ignoreCase :: bool
  multiline :: bool

definition lit :: "codeunit \<Rightarrow> regex" where
  "lit c = Chars False [Single c]"

text \<open>The pattern \<open>.\<close>: every code unit but the line terminators (no \<open>s\<close> flag is used).\<close>

definition dot :: regex where
  "dot = Chars True [Single 0x0A, Single 0x0D, Single 0x2028, Single 0x2029]"

fun seqOf :: "regex list \<Rightarrow> regex" where
  "seqOf [] = Empty"
| "seqOf [r] = r"
| "seqOf (r # rs) = Seq r (seqOf rs)"

fun altOf :: "regex list \<Rightarrow> regex" where
  "altOf [] = Empty"
| "altOf [r] = r"
| "altOf (r # rs) = Alt r (altOf rs)"

fun groupsOf :: "regex \<Rightarrow> nat list" where
  "groupsOf (Seq r1 r2) = groupsOf r1 @ groupsOf r2"
| "groupsOf (Alt r1 r2) = groupsOf r1 @ groupsOf r2"
| "groupsOf (Group k r) = k # groupsOf r"
| "groupsOf (Repeat mn mx g r) = groupsOf r"
| "groupsOf r = []"

fun rsize :: "regex \<Rightarrow> nat" where
  "rsize (Seq r1 r2) = Suc (rsize r1 + rsize r2)"
| "rsize (Alt r1 r2) = Suc (rsize r1 + rsize r2)"
| "rsize (Group k r) = Suc (rsize r)"
| "rsize (Repeat mn mx g r) = Suc (rsize r)"
| "rsize r = 0"

subsection \<open>Matching one code unit\<close>

definition isDigit :: "codeunit \<Rightarrow> bool" where
  "isDigit c = (0x30 \<le> c \<and> c \<le> 0x39)"

definition isUpper :: "codeunit \<Rightarrow> bool" where
  "isUpper c = (0x41 \<le> c \<and> c \<le> 0x5A)"

definition isLower :: "codeunit \<Rightarrow> bool" where
  "isLower c = (0x61 \<le> c \<and> c \<le> 0x7A)"

definition isWordChar :: "codeunit \<Rightarrow> bool" where
  "isWordChar c = (isDigit c \<or> isUpper c \<or> isLower c \<or> c = 0x5F)"

fun inEscape :: "class_escape \<Rightarrow> codeunit \<Rightarrow> bool" where
  "inEscape Digit c = isDigit c"
| "inEscape NotDigit c = (\<not> isDigit c)"
| "inEscape Space c = isWhiteSpace c"
| "inEscape NotSpace c = (\<not> isWhiteSpace c)"
| "inEscape WordChar c = isWordChar c"
| "inEscape NotWordChar c = (\<not> isWordChar c)"

fun inItem :: "class_item \<Rightarrow> codeunit \<Rightarrow> bool" where
  "inItem (Single a) c = (c = a)"
| "inItem (Range a b) c = (a \<le> c \<and> c \<le> b)"
| "inItem (Escape e) c = inEscape e c"

text \<open>
  With the \<open>i\<close> flag a code unit matches a class when the class holds a member with the same
  canonical form. Canonical forms are upper-case mappings, and a code unit outside ASCII never
  has an ASCII canonical form (ECMA-262, Canonicalize); so for the ASCII letters the members
  to look for are the letter in both cases, and for every other code unit the unit itself.
  Patterns with the \<open>i\<close> flag in the source hold ASCII members only.
\<close>

definition upperAscii :: "codeunit \<Rightarrow> codeunit" where
  "upperAscii c = (if isLower c then c - 0x20 else c)"

definition lowerAscii :: "codeunit \<Rightarrow> codeunit" where
  "lowerAscii c = (if isUpper c then c + 0x20 else c)"

definition charSetMatches :: "flags \<Rightarrow> bool \<Rightarrow> class_item list \<Rightarrow> codeunit \<Rightarrow> bool" where
  "charSetMatches f invert items c =
     (let found = (\<exists>i \<in> set items. inItem i c
                     \<or> (ignoreCase f \<and> (inItem i (upperAscii c) \<or> inItem i (lowerAscii c))))
      in found \<noteq> invert)"

subsection \<open>The backtracking matcher\<close>

text \<open>
  A match state holds the code unit before the current position (if any), the input from the
  current position on, and the captures so far (\<open>None\<close>: undefined). \<open>m f r x\<close> lists the
  states in which a match of \<open>r\<close> from \<open>x\<close> can end, in the order in which backtracking
  tries them: with a continuation \<open>c\<close>, the matcher of ECMA-262 returns the first success of
  \<open>c\<close> along this list.
\<close>

type_synonym captures = "jsstring option list"
type_synonym mstate = "codeunit option \<times> jsstring \<times> captures"

fun clear :: "nat list \<Rightarrow> captures \<Rightarrow> captures" where
  "clear [] cs = cs"
| "clear (k # ks) cs = clear ks (cs[k - 1 := None])"

text \<open>
  In \<open>Repeat\<close>, an iteration that is not required (\<open>min = 0\<close>) and that did not move forward is
  dropped (ECMA-262, RepeatMatcher: ``if min = 0 and y's endIndex = x's endIndex, return
  failure''). The matcher never moves backward (\<open>m_length_rest\<close> below), so ``did not move forward''
  is written \<open>\<not> length ys < length xs\<close>. The captures of the groups inside a quantified term
  are reset at the start of every iteration.
\<close>

function m :: "flags \<Rightarrow> regex \<Rightarrow> mstate \<Rightarrow> mstate list" where
  "m f Empty x = [x]"
| "m f (Chars invert items) (p, xs, cs) =
     (case xs of
        [] \<Rightarrow> []
      | c # rest \<Rightarrow> if charSetMatches f invert items c then [(Some c, rest, cs)] else [])"
| "m f (Seq r1 r2) x = concat (map (m f r2) (m f r1 x))"
| "m f (Alt r1 r2) x = m f r1 x @ m f r2 x"
| "m f (Group k r) (p, xs, cs) =
     map (\<lambda>(p', ys, cs'). (p', ys, cs'[k - 1 := Some (take (length xs - length ys) xs)]))
         (m f r (p, xs, cs))"
| "m f (Repeat mn mx g r) (p, xs, cs) =
     (if mx = Some 0 then [(p, xs, cs)]
      else
        let again = concat (map (\<lambda>y.
                      if mn = 0 \<and> \<not> length (fst (snd y)) < length xs then []
                      else m f (Repeat (mn - 1) (map_option (\<lambda>k. k - 1) mx) g r) y)
                    (m f r (p, xs, clear (groupsOf r) cs)))
        in if mn \<noteq> 0 then again
           else if g then again @ [(p, xs, cs)]
           else (p, xs, cs) # again)"
| "m f LineStart (p, xs, cs) =
     (case p of
        None \<Rightarrow> [(p, xs, cs)]
      | Some c \<Rightarrow> if multiline f \<and> isLineTerminator c then [(p, xs, cs)] else [])"
| "m f LineEnd (p, xs, cs) =
     (case xs of
        [] \<Rightarrow> [(p, xs, cs)]
      | c # rest \<Rightarrow> if multiline f \<and> isLineTerminator c then [(p, xs, cs)] else [])"
  by pat_completeness auto
termination
  by (relation "inv_image (less_than <*lex*> less_than <*lex*> less_than)
        (\<lambda>(f, r, (p, xs, cs)). (rsize r, (case r of Repeat mn mx g r' \<Rightarrow> mn | _ \<Rightarrow> 0), length xs))")
     auto

subsection \<open>Compiled expressions and the operations on them\<close>

text \<open>
  A compiled expression is its matcher: given the input before the position and the input
  from the position on, it fails (\<open>None\<close>) or returns the number of code units matched and
  the captures.
\<close>

type_synonym match_result = "(nat \<times> captures) option"
type_synonym RegExpMatcher = "jsstring \<Rightarrow> jsstring \<Rightarrow> match_result"

definition lastUnit :: "jsstring \<Rightarrow> codeunit option" where
  "lastUnit s = (if s = [] then None else Some (last s))"

definition compile :: "flags \<Rightarrow> regex \<Rightarrow> RegExpMatcher" where
  "compile f r pre after =
     (case m f r (lastUnit pre, after, replicate (length (groupsOf r)) None) of
        [] \<Rightarrow> None
      | (p, ys, cs) # _ \<Rightarrow> Some (length after - length ys, cs))"

text \<open>
  \<open>search\<close> is the loop of RegExpBuiltinExec for an expression that is not sticky: the match
  is tried at the position, then one code unit further, up to the end of the input. The
  result is the index of the match, its length and its captures.
\<close>

fun search :: "RegExpMatcher \<Rightarrow> jsstring \<Rightarrow> jsstring \<Rightarrow> (nat \<times> nat \<times> captures) option" where
  "search M pre [] =
     (case M pre [] of Some (n, cs) \<Rightarrow> Some (length pre, n, cs) | None \<Rightarrow> None)"
| "search M pre (c # rest) =
     (case M pre (c # rest) of
        Some (n, cs) \<Rightarrow> Some (length pre, n, cs)
      | None \<Rightarrow> search M (pre @ [c]) rest)"

text \<open>
  \<open>s.match(re)\<close> for an expression without the \<open>g\<close> flag: \<open>None\<close> is \<open>null\<close>, otherwise the
  captures (elements 1, 2, ... of the match array).
\<close>

definition matchStr :: "RegExpMatcher \<Rightarrow> jsstring \<Rightarrow> captures option" where
  "matchStr M s = map_option (\<lambda>(i, n, cs). cs) (search M [] s)"

text \<open>An array element beyond the end of the array is undefined.\<close>

definition element :: "captures \<Rightarrow> nat \<Rightarrow> jsstring option" where
  "element cs k = (if k < length cs then cs ! k else None)"

text \<open>
  \<open>s.replace(re, fn)\<close> for an expression with the \<open>g\<close> flag. The input is walked from left to
  right; \<open>k\<close> counts the code units still covered by the last match. At a position not
  covered, a match is replaced by \<open>fn(matched, captures)\<close> and the search goes on after it
  (one code unit further after an empty match); a code unit where nothing matches is copied.
\<close>

fun replaceAll :: "RegExpMatcher \<Rightarrow> (jsstring \<Rightarrow> captures \<Rightarrow> jsstring) \<Rightarrow>
                   jsstring \<Rightarrow> jsstring \<Rightarrow> nat \<Rightarrow> jsstring" where
  "replaceAll M fn pre [] k =
     (if 0 < k then []
      else case M pre [] of Some (n, cs) \<Rightarrow> fn [] cs | None \<Rightarrow> [])"
| "replaceAll M fn pre (c # rest) k =
     (if 0 < k then replaceAll M fn (pre @ [c]) rest (k - 1)
      else case M pre (c # rest) of
             None \<Rightarrow> c # replaceAll M fn (pre @ [c]) rest 0
           | Some (n, cs) \<Rightarrow>
               fn (take n (c # rest)) cs @
               (if n = 0 then c # replaceAll M fn (pre @ [c]) rest 0
                else replaceAll M fn (pre @ [c]) rest (n - 1)))"

definition replace :: "RegExpMatcher \<Rightarrow> (jsstring \<Rightarrow> captures \<Rightarrow> jsstring) \<Rightarrow> jsstring \<Rightarrow> jsstring" where
  "replace M fn s = replaceAll M fn [] s 0"

text \<open>
  The array that \<open>s.split(re)\<close> builds (ECMA-262, RegExp.prototype[@@split]) without a limit.
  \<open>seg\<close> is the input between the end of the last separator and the position. At each
  position the expression is tried (sticky): a separator that is not empty closes the segment
  and is skipped; an empty one closes the segment only if the segment is not empty. The
  captures of every separator are spliced into the result, the undefined ones as \<open>None\<close>.
\<close>

fun splitLoop :: "RegExpMatcher \<Rightarrow> jsstring \<Rightarrow> jsstring \<Rightarrow> jsstring \<Rightarrow> nat \<Rightarrow> jsstring option list" where
  "splitLoop M pre seg [] k = [Some seg]"
| "splitLoop M pre seg (c # rest) k =
     (if 0 < k then splitLoop M (pre @ [c]) seg rest (k - 1)
      else case M pre (c # rest) of
             None \<Rightarrow> splitLoop M (pre @ [c]) (seg @ [c]) rest 0
           | Some (n, cs) \<Rightarrow>
               if n = 0 then
                 (if seg = [] then splitLoop M (pre @ [c]) [c] rest 0
                  else Some seg # cs @ splitLoop M (pre @ [c]) [c] rest 0)
               else Some seg # cs @ splitLoop M (pre @ [c]) [] rest (n - 1))"

definition splitArray :: "RegExpMatcher \<Rightarrow> jsstring \<Rightarrow> jsstring option list" where
  "splitArray M s =
     (if s = [] then (case M [] [] of Some z \<Rightarrow> [] | None \<Rightarrow> [Some []])
      else splitLoop M [] [] s 0)"

subsection \<open>Reading a pattern\<close>

text \<open>
  The pattern grammar of ECMA-262 without the \<open>u\<close> flag, with the extensions of its Annex B,
  restricted to: alternatives, literal code units, \<open>.\<close>, \<open>^\<close>, \<open>$\<close>, classes with ranges,
  the escapes \<open>\d \D \s \S \w \W \f \n \r \t \v\<close>, a backslash before a code unit that is
  neither letter nor digit, capturing groups and \<open>(?:...)\<close>, and the quantifiers
  \<open>* + ? {n} {n,} {n,m}\<close> with their lazy forms. Reading stops with \<open>Invalid\<close> at the first
  syntax error and with \<open>Beyond\<close> at the first construct outside this grammar (\<open>(?\<close> not
  followed by \<open>:\<close>, a backslash before another letter or a digit, a braced quantifier
  with a bound of \<open>2^31 - 1\<close> or more).
\<close>

datatype 'a parsed = Parsed 'a | Invalid | Beyond

datatype token =
    TAtom regex
  | TAssert regex
  | TOpen bool
  | TClose
  | TBar
  | TQuant nat "nat option" bool

abbreviation cu :: "char \<Rightarrow> codeunit" where
  "cu c \<equiv> of_char c"

definition isAlnum :: "codeunit \<Rightarrow> bool" where
  "isAlnum c = (isDigit c \<or> isUpper c \<or> isLower c)"

definition escapeItem :: "codeunit \<Rightarrow> class_item parsed" where
  "escapeItem d =
     (if d = cu CHR ''d'' then Parsed (Escape Digit)
      else if d = cu CHR ''D'' then Parsed (Escape NotDigit)
      else if d = cu CHR ''s'' then Parsed (Escape Space)
      else if d = cu CHR ''S'' then Parsed (Escape NotSpace)
      else if d = cu CHR ''w'' then Parsed (Escape WordChar)
      else if d = cu CHR ''W'' then Parsed (Escape NotWordChar)
      else if d = cu CHR ''f'' then Parsed (Single 0x0C)
      else if d = cu CHR ''n'' then Parsed (Single 0x0A)
      else if d = cu CHR ''r'' then Parsed (Single 0x0D)
      else if d = cu CHR ''t'' then Parsed (Single 0x09)
      else if d = cu CHR ''v'' then Parsed (Single 0x0B)
      else if isAlnum d then Beyond
      else Parsed (Single d))"

fun classAtom :: "jsstring \<Rightarrow> (class_item \<times> nat) parsed" where
  "classAtom [] = Invalid"
| "classAtom (c # cs) =
     (if c = 0x5C then
        (case cs of
           [] \<Rightarrow> Invalid
         | d # _ \<Rightarrow> (case escapeItem d of
                       Parsed i \<Rightarrow> Parsed (i, 2) | Invalid \<Rightarrow> Invalid | Beyond \<Rightarrow> Beyond))
      else Parsed (Single c, 1))"

text \<open>
  \<open>a-b\<close> in a class: a range, a syntax error when out of order; when one end is a class
  escape, the two ends and the hyphen (Annex B).
\<close>

fun rangeItems :: "class_item \<Rightarrow> class_item \<Rightarrow> class_item list option" where
  "rangeItems (Single a) (Single b) = (if b < a then None else Some [Range a b])"
| "rangeItems a b = Some [a, Single (cu CHR ''-''), b]"

fun consItems :: "class_item list \<Rightarrow> nat \<Rightarrow> (class_item list \<times> nat) parsed \<Rightarrow>
                  (class_item list \<times> nat) parsed" where
  "consItems is n (Parsed (js, k)) = Parsed (is @ js, n + k)"
| "consItems is n e = e"

text \<open>The members of a class up to its closing bracket, and the number of code units read.\<close>

fun classItems :: "jsstring \<Rightarrow> (class_item list \<times> nat) parsed" where
  "classItems [] = Invalid"
| "classItems (c # cs) =
     (if c = cu CHR '']'' then Parsed ([], 1)
      else case classAtom (c # cs) of
             Invalid \<Rightarrow> Invalid
           | Beyond \<Rightarrow> Beyond
           | Parsed (a, na) \<Rightarrow>
               (if (case drop (na - 1) cs of
                      d # e # _ \<Rightarrow> d = cu CHR ''-'' \<and> e \<noteq> cu CHR '']''
                    | _ \<Rightarrow> False)
                then (case classAtom (drop na cs) of
                        Invalid \<Rightarrow> Invalid
                      | Beyond \<Rightarrow> Beyond
                      | Parsed (b, nb) \<Rightarrow>
                          (case rangeItems a b of
                             None \<Rightarrow> Invalid
                           | Some is \<Rightarrow> consItems is (na + 1 + nb)
                                         (classItems (drop (na + nb) cs))))
                else consItems [a] na (classItems (drop (na - 1) cs))))"

definition lexClass :: "jsstring \<Rightarrow> (regex \<times> nat) parsed" where
  "lexClass cs =
     (let invert = (case cs of c # _ \<Rightarrow> c = cu CHR ''^'' | [] \<Rightarrow> False);
          k = (if invert then 1 else 0)
      in case classItems (drop k cs) of
           Parsed (is, n) \<Rightarrow> Parsed (Chars invert is, k + n)
         | Invalid \<Rightarrow> Invalid
         | Beyond \<Rightarrow> Beyond)"

datatype brace = NoBrace | Brace nat "nat option" nat

definition digitsValue :: "jsstring \<Rightarrow> nat" where
  "digitsValue ds = foldl (\<lambda>n d. 10 * n + unat (d - 0x30)) 0 ds"

text \<open>The text after \<open>{\<close>: \<open>n}\<close>, \<open>n,}\<close> or \<open>n,m}\<close>, with the number of code units read.\<close>

definition braced :: "jsstring \<Rightarrow> brace" where
  "braced cs =
     (let ds = takeWhile isDigit cs; r = dropWhile isDigit cs
      in if ds = [] then NoBrace
         else case r of
                [] \<Rightarrow> NoBrace
              | c # r' \<Rightarrow>
                  if c = cu CHR ''}'' then Brace (digitsValue ds) (Some (digitsValue ds)) (length ds + 1)
                  else if c = cu CHR '','' then
                    (let es = takeWhile isDigit r'
                     in case dropWhile isDigit r' of
                          [] \<Rightarrow> NoBrace
                        | d # _ \<Rightarrow>
                            if d = cu CHR ''}'' then
                              Brace (digitsValue ds)
                                    (if es = [] then None else Some (digitsValue es))
                                    (length ds + length es + 2)
                            else NoBrace)
                  else NoBrace)"

text \<open>
  ECMA-262 reads the bounds of a braced quantifier as integers of any size and rejects
  \<open>{n,m}\<close> with \<open>m < n\<close>; an engine holds them in machine integers and clamps them before it
  compares them. The two agree on bounds below \<open>boundLimit\<close>; a quantifier with a bound
  that is not below it is left to the runtime.
\<close>

definition boundLimit :: int where
  "boundLimit = 2147483647"

definition beyondBounds :: "nat \<Rightarrow> nat option \<Rightarrow> bool" where
  "beyondBounds mn mx =
     (boundLimit \<le> int mn \<or> (case mx of Some k \<Rightarrow> boundLimit \<le> int k | None \<Rightarrow> False))"

fun tok :: "token \<Rightarrow> token list parsed \<Rightarrow> token list parsed" where
  "tok t (Parsed ts) = Parsed (t # ts)"
| "tok t e = e"

text \<open>A quantifier followed by \<open>?\<close> is lazy.\<close>

definition lazyMark :: "jsstring \<Rightarrow> nat" where
  "lazyMark cs = (case cs of c # _ \<Rightarrow> if c = cu CHR ''?'' then 1 else 0 | [] \<Rightarrow> 0)"

fun lex :: "jsstring \<Rightarrow> token list parsed" where
  "lex [] = Parsed []"
| "lex (c # cs) =
     (if c = 0x5C then
        (case cs of
           [] \<Rightarrow> Invalid
         | d # rest \<Rightarrow> (case escapeItem d of
                          Parsed i \<Rightarrow> tok (TAtom (Chars False [i])) (lex rest)
                        | Invalid \<Rightarrow> Invalid
                        | Beyond \<Rightarrow> Beyond))
      else if c = cu CHR ''['' then
        (case lexClass cs of
           Parsed (r, n) \<Rightarrow> tok (TAtom r) (lex (drop n cs))
         | Invalid \<Rightarrow> Invalid
         | Beyond \<Rightarrow> Beyond)
      else if c = cu CHR ''('' then
        (case cs of
           [] \<Rightarrow> tok (TOpen True) (lex cs)
         | d # rest \<Rightarrow>
             if d = cu CHR ''?'' then
               (case rest of
                  [] \<Rightarrow> Beyond
                | e # rest' \<Rightarrow> if e = cu CHR '':'' then tok (TOpen False) (lex rest') else Beyond)
             else tok (TOpen True) (lex cs))
      else if c = cu CHR '')'' then tok TClose (lex cs)
      else if c = cu CHR ''|'' then tok TBar (lex cs)
      else if c = cu CHR ''^'' then tok (TAssert LineStart) (lex cs)
      else if c = cu CHR ''$'' then tok (TAssert LineEnd) (lex cs)
      else if c = cu CHR ''.'' then tok (TAtom dot) (lex cs)
      else if c = cu CHR ''*'' then
        tok (TQuant 0 None (lazyMark cs = 0)) (lex (drop (lazyMark cs) cs))
      else if c = cu CHR ''+'' then
        tok (TQuant 1 None (lazyMark cs = 0)) (lex (drop (lazyMark cs) cs))
      else if c = cu CHR ''?'' then
        tok (TQuant 0 (Some 1) (lazyMark cs = 0)) (lex (drop (lazyMark cs) cs))
      else if c = cu CHR ''{'' then
        (case braced cs of
           NoBrace \<Rightarrow> tok (TAtom (lit c)) (lex cs)
         | Brace mn mx n \<Rightarrow>
             if beyondBounds mn mx then Beyond
             else if (case mx of Some k \<Rightarrow> k < mn | None \<Rightarrow> False) then Invalid
             else tok (TQuant mn mx (lazyMark (drop n cs) = 0))
                      (lex (drop (n + lazyMark (drop n cs)) cs)))
      else tok (TAtom (lit c)) (lex cs))"

text \<open>
  The tokens are read with a stack of the groups that are open. A frame holds the number of
  its capturing group (if it is one), the alternatives already closed, the terms of the
  current alternative (both latest first), and whether the last term may take a quantifier.
\<close>

type_synonym frame = "nat option \<times> regex list \<times> regex list \<times> bool"

definition closeFrame :: "regex list \<Rightarrow> regex list \<Rightarrow> regex" where
  "closeFrame alts cur = altOf (rev (seqOf (rev cur) # alts))"

fun parseTokens :: "token list \<Rightarrow> frame \<Rightarrow> frame list \<Rightarrow> nat \<Rightarrow> regex parsed" where
  "parseTokens [] (g, alts, cur, q) stack n =
     (if stack = [] then Parsed (closeFrame alts cur) else Invalid)"
| "parseTokens (TAtom r # ts) (g, alts, cur, q) stack n =
     parseTokens ts (g, alts, r # cur, True) stack n"
| "parseTokens (TAssert r # ts) (g, alts, cur, q) stack n =
     parseTokens ts (g, alts, r # cur, False) stack n"
| "parseTokens (TBar # ts) (g, alts, cur, q) stack n =
     parseTokens ts (g, seqOf (rev cur) # alts, [], False) stack n"
| "parseTokens (TOpen capturing # ts) fr stack n =
     (if capturing then parseTokens ts (Some (Suc n), [], [], False) (fr # stack) (Suc n)
      else parseTokens ts (None, [], [], False) (fr # stack) n)"
| "parseTokens (TClose # ts) (g, alts, cur, q) stack n =
     (case stack of
        [] \<Rightarrow> Invalid
      | (g', alts', cur', q') # stack' \<Rightarrow>
          parseTokens ts
            (g', alts', (case g of Some k \<Rightarrow> Group k (closeFrame alts cur)
                                 | None \<Rightarrow> closeFrame alts cur) # cur', True)
            stack' n)"
| "parseTokens (TQuant mn mx greedy # ts) (g, alts, cur, q) stack n =
     (case cur of
        [] \<Rightarrow> Invalid
      | r # cur' \<Rightarrow>
          if q then parseTokens ts (g, alts, Repeat mn mx greedy r # cur', False) stack n
          else Invalid)"

definition parsePattern :: "jsstring \<Rightarrow> regex parsed" where
  "parsePattern src =
     (case lex src of
        Parsed ts \<Rightarrow> parseTokens ts (None, [], [], False) [] 0
      | Invalid \<Rightarrow> Invalid
      | Beyond \<Rightarrow> Beyond)"

subsection \<open>Expressions made at run time, and the limits of the engine\<close>

datatype js_error = SyntaxError | TypeError | RangeError | InvalidCharacterError

text \<open>
  An expression made by \<open>new RegExp\<close>: its matcher, and what the engine does when it runs it.
  \<open>givesUp re s\<close> is the error with which the engine abandons a run of the expression on
  \<open>s\<close>, \<open>None\<close> when the run reaches its end. (A backtracking engine throws RangeError when
  its stack overflows; it compiles an expression at its first run, and throws SyntaxError
  there when the expression is too large.) Only the expression that the source builds from
  the boundary depends on the message; the expressions written in the source are fixed, and
  are modelled by their matchers.
\<close>

record RegExp =
  matcher :: RegExpMatcher
  givesUp :: "jsstring \<Rightarrow> js_error option"

text \<open>
  The runtime is the parameter \<open>host\<close>: what it makes of a pattern outside the grammar
  above (\<open>None\<close>: it throws SyntaxError), the error with which it refuses to make an
  expression of a pattern that exceeds its limits (\<open>None\<close>: it does not), and the error
  with which it abandons a run of the expression made of a pattern on an input.
\<close>

record host_regexp =
  beyond :: "jsstring \<Rightarrow> RegExpMatcher option"
  refuses :: "jsstring \<Rightarrow> js_error option"
  abandons :: "jsstring \<Rightarrow> jsstring \<Rightarrow> js_error option"

definition noFlags :: flags where
  "noFlags = \<lparr>ignoreCase = False, multiline = False\<rparr>"

text \<open>\<open>new RegExp(src, "g")\<close>. A pattern with a syntax error throws SyntaxError.\<close>

definition RegExp_new :: "host_regexp \<Rightarrow> jsstring \<Rightarrow> js_error + RegExp" where
  "RegExp_new host src =
     (case refuses host src of
        Some e \<Rightarrow> Inl e
      | None \<Rightarrow>
          (case parsePattern src of
             Parsed r \<Rightarrow> Inr \<lparr>matcher = compile noFlags r, givesUp = abandons host src\<rparr>
           | Invalid \<Rightarrow> Inl SyntaxError
           | Beyond \<Rightarrow>
               (case beyond host src of
                  None \<Rightarrow> Inl SyntaxError
                | Some M \<Rightarrow> Inr \<lparr>matcher = M, givesUp = abandons host src\<rparr>)))"

text \<open>
  \<open>s.split(re)\<close> for an expression made at run time: the error of the engine when it
  abandons the run, else the array.
\<close>

definition split :: "RegExp \<Rightarrow> jsstring \<Rightarrow> js_error + jsstring option list" where
  "split re s =
     (case givesUp re s of
        Some e \<Rightarrow> Inl e
      | None \<Rightarrow> Inr (splitArray (matcher re) s))"


section \<open>The expressions of the source\<close>

definition whiteSpace :: regex where
  "whiteSpace = Chars False [Escape Space]"

text \<open>\<open>/^Content-Type:\s*multipart\/[a-zA-Z0-9._-]+;\s*boundary="?([^"\s]+)"?/im\<close>\<close>

definition contentTypeHeaderPattern :: regex where
  "contentTypeHeaderPattern =
     seqOf ([LineStart] @ map lit (asc ''Content-Type:'') @
            [Repeat 0 None True whiteSpace] @ map lit (asc ''multipart/'') @
            [Repeat 1 None True
               (Chars False [Range (cu CHR ''a'') (cu CHR ''z''), Range (cu CHR ''A'') (cu CHR ''Z''),
                             Range (cu CHR ''0'') (cu CHR ''9''), Single (cu CHR ''.''),
                             Single (cu CHR ''_''), Single (cu CHR ''-'')]),
             lit (cu CHR '';''), Repeat 0 None True whiteSpace] @
            map lit (asc ''boundary='') @
            [Repeat 0 (Some 1) True (lit 0x22),
             Group 1 (Repeat 1 None True (Chars True [Single 0x22, Escape Space])),
             Repeat 0 (Some 1) True (lit 0x22)])"

text \<open>\<open>/Content-Type:\s*([^;]+)(?:;\s*charset="?([^"\s]+)"?)?/im\<close>\<close>

definition partContentTypePattern :: regex where
  "partContentTypePattern =
     seqOf (map lit (asc ''Content-Type:'') @
            [Repeat 0 None True whiteSpace,
             Group 1 (Repeat 1 None True (Chars True [Single (cu CHR '';'')])),
             Repeat 0 (Some 1) True
               (seqOf ([lit (cu CHR '';''), Repeat 0 None True whiteSpace] @
                       map lit (asc ''charset='') @
                       [Repeat 0 (Some 1) True (lit 0x22),
                        Group 2 (Repeat 1 None True (Chars True [Single 0x22, Escape Space])),
                        Repeat 0 (Some 1) True (lit 0x22)]))])"

text \<open>\<open>/Content-Transfer-Encoding:\s*([^\r\n]+)/im\<close>\<close>

definition transferEncodingPattern :: regex where
  "transferEncodingPattern =
     seqOf (map lit (asc ''Content-Transfer-Encoding:'') @
            [Repeat 0 None True whiteSpace,
             Group 1 (Repeat 1 None True (Chars True [Single 0x0D, Single 0x0A]))])"

text \<open>\<open>/=\r\n/g\<close>\<close>

definition softBreakPattern :: regex where
  "softBreakPattern = seqOf [lit (cu CHR ''=''), lit 0x0D, lit 0x0A]"

text \<open>\<open>/=([0-9A-Fa-f]{2})/g\<close>\<close>

definition hexDigitClass :: regex where
  "hexDigitClass =
     Chars False [Range (cu CHR ''0'') (cu CHR ''9''), Range (cu CHR ''A'') (cu CHR ''F''),
                  Range (cu CHR ''a'') (cu CHR ''f'')]"

definition hexEscapePattern :: regex where
  "hexEscapePattern = Seq (lit (cu CHR ''='')) (Group 1 (Repeat 2 (Some 2) True hexDigitClass))"

text \<open>\<open>/<[^>]*>?/gm\<close>\<close>

definition tagPattern :: regex where
  "tagPattern =
     seqOf [lit (cu CHR ''<''), Repeat 0 None True (Chars True [Single (cu CHR ''>'')]),
            Repeat 0 (Some 1) True (lit (cu CHR ''>''))]"

definition flags_im :: flags where
  "flags_im = \<lparr>ignoreCase = True, multiline = True\<rparr>"

definition flags_m :: flags where
  "flags_m = \<lparr>ignoreCase = False, multiline = True\<rparr>"


section \<open>atob\<close>

text \<open>
  \<open>atob\<close> is the forgiving-base64 decode of the WHATWG Infra standard: ASCII white space is
  removed; if the length is then a multiple of 4, one or two \<open>=\<close> at the end are removed; a
  length with remainder 1 modulo 4, or a code unit outside the base64 alphabet, throws
  InvalidCharacterError; the rest is decoded six bits at a time, the bits left over dropped.
\<close>

definition isAsciiWhitespace :: "codeunit \<Rightarrow> bool" where
  "isAsciiWhitespace c = (c = 0x09 \<or> c = 0x0A \<or> c = 0x0C \<or> c = 0x0D \<or> c = 0x20)"

definition base64Value :: "codeunit \<Rightarrow> nat option" where
  "base64Value c =
     (if isUpper c then Some (unat c - 0x41)
      else if isLower c then Some (unat c - 0x61 + 26)
      else if isDigit c then Some (unat c - 0x30 + 52)
      else if c = cu CHR ''+'' then Some 62
      else if c = cu CHR ''/'' then Some 63
      else None)"

fun sextets :: "jsstring \<Rightarrow> nat list option" where
  "sextets [] = Some []"
| "sextets (c # cs) =
     (case base64Value c of
        None \<Rightarrow> None
      | Some v \<Rightarrow> (case sextets cs of None \<Rightarrow> None | Some vs \<Rightarrow> Some (v # vs)))"

fun decodeSextets :: "nat list \<Rightarrow> jsstring" where
  "decodeSextets (a # b # c # d # rest) =
     [of_nat (a * 4 + b div 16), of_nat ((b mod 16) * 16 + c div 4), of_nat ((c mod 4) * 64 + d)]
     @ decodeSextets rest"
| "decodeSextets [a, b, c] = [of_nat (a * 4 + b div 16), of_nat ((b mod 16) * 16 + c div 4)]"
| "decodeSextets [a, b] = [of_nat (a * 4 + b div 16)]"
| "decodeSextets vs = []"

definition endsWith :: "jsstring \<Rightarrow> jsstring \<Rightarrow> bool" where
  "endsWith s n = startsWith (rev s) (rev n)"

definition stripPadding :: "jsstring \<Rightarrow> jsstring" where
  "stripPadding s =
     (if endsWith s (asc ''=='') then take (length s - 2) s
      else if endsWith s (asc ''='') then take (length s - 1) s
      else s)"

definition atob :: "jsstring \<Rightarrow> js_error + jsstring" where
  "atob data =
     (let d1 = filter (\<lambda>c. \<not> isAsciiWhitespace c) data;
          d2 = (if length d1 mod 4 = 0 then stripPadding d1 else d1)
      in if length d2 mod 4 = 1 then Inl InvalidCharacterError
         else case sextets d2 of
                None \<Rightarrow> Inl InvalidCharacterError
              | Some vs \<Rightarrow> Inr (decodeSextets vs))"


section \<open>decodeContent\<close>

text \<open>The console: the diagnostics written so far, each a message with the error logged.\<close>

datatype diagnostic = Warn jsstring js_error

type_synonym console = "diagnostic list"

definition isHexDigit :: "codeunit \<Rightarrow> bool" where
  "isHexDigit c = (isDigit c \<or> (0x41 \<le> c \<and> c \<le> 0x46) \<or> (0x61 \<le> c \<and> c \<le> 0x66))"

definition hexValue :: "codeunit \<Rightarrow> nat" where
  "hexValue c =
     (if isDigit c then unat c - 0x30
      else if 0x41 \<le> c \<and> c \<le> 0x46 then unat c - 0x41 + 10
      else unat c - 0x61 + 10)"

text \<open>
  \<open>parseInt(s, 16)\<close>: the value of the hexadecimal digits at the start of \<open>s\<close>, \<open>None\<close> (NaN)
  when there is none. (The white space, sign and \<open>0x\<close> prefix that \<open>parseInt\<close> skips cannot
  start a capture of \<open>[0-9A-Fa-f]{2}\<close>.) An undefined argument is read as the text
  \<open>undefined\<close>.
\<close>

definition parseInt16 :: "jsstring option \<Rightarrow> nat option" where
  "parseInt16 arg =
     (let s = (case arg of None \<Rightarrow> asc ''undefined'' | Some t \<Rightarrow> t);
          ds = takeWhile isHexDigit s
      in if ds = [] then None else Some (foldl (\<lambda>n d. 16 * n + hexValue d) 0 ds))"

text \<open>\<open>String.fromCharCode\<close>: one code unit, the argument modulo \<open>2^16\<close>; NaN gives 0.\<close>

definition fromCharCode :: "nat option \<Rightarrow> jsstring" where
  "fromCharCode v = (case v of None \<Rightarrow> [0] | Some n \<Rightarrow> [of_nat n])"

definition decodeContent :: "jsstring \<Rightarrow> jsstring option \<Rightarrow> console \<Rightarrow> jsstring \<times> console" where
  "decodeContent encodedText transferEncoding con =
     (if encodedText = [] then ([], con)
      else
        let encoding = (case transferEncoding of
                          None \<Rightarrow> []
                        | Some t \<Rightarrow> if t = [] then [] else toLowerCase t)
        in if encoding = asc ''base64'' then
             (case atob (replace (compile noFlags whiteSpace) (\<lambda>match cs. []) encodedText) of
                Inr decoded \<Rightarrow> (decoded, con)
              | Inl e \<Rightarrow> (encodedText, con @ [Warn (asc ''Base64 decoding failed:'') e]))
           else if encoding = asc ''quoted-printable'' then
             (replace (compile noFlags hexEscapePattern)
                      (\<lambda>match cs. fromCharCode (parseInt16 (element cs 0)))
                      (replace (compile noFlags softBreakPattern) (\<lambda>match cs. []) encodedText),
              con)
           else (encodedText, con))"


section \<open>extractEmailBody\<close>

text \<open>
  \<open>match ? match[1].toLowerCase() : ""\<close>; calling \<open>toLowerCase\<close> on an undefined capture
  throws TypeError.
\<close>

definition lowerCapture :: "captures option \<Rightarrow> js_error + jsstring" where
  "lowerCapture mt =
     (case mt of
        None \<Rightarrow> Inr []
      | Some cs \<Rightarrow> (case element cs 0 of None \<Rightarrow> Inl TypeError | Some s \<Rightarrow> Inr (toLowerCase s)))"

definition CRLFCRLF :: jsstring where
  "CRLFCRLF = CRLF @ CRLF"

text \<open>
  The loop over the parts, with the running \<open>plainTextBody\<close> and \<open>htmlBody\<close>. An undefined
  part (an undefined capture of the boundary expression, spliced in by \<open>split\<close>) throws
  TypeError at \<open>part.trim()\<close>. The \<open>break\<close> after a \<open>text/plain\<close> part ends the loop.
\<close>

fun scanParts :: "jsstring option list \<Rightarrow> jsstring \<Rightarrow> jsstring \<Rightarrow> console \<Rightarrow>
                  (js_error + jsstring \<times> jsstring) \<times> console" where
  "scanParts [] plainTextBody htmlBody con = (Inr (plainTextBody, htmlBody), con)"
| "scanParts (None # parts) plainTextBody htmlBody con = (Inl TypeError, con)"
| "scanParts (Some part # parts) plainTextBody htmlBody con =
     (if trim part = [] then scanParts parts plainTextBody htmlBody con
      else case indexOf part CRLFCRLF of
             None \<Rightarrow> scanParts parts plainTextBody htmlBody con
           | Some partHeadersEnd \<Rightarrow>
              (let partHeaders = substring part 0 partHeadersEnd;
                   partBody = substringFrom part (partHeadersEnd + 4)
               in case lowerCapture (matchStr (compile flags_im partContentTypePattern) partHeaders) of
                    Inl e \<Rightarrow> (Inl e, con)
                  | Inr contentType \<Rightarrow>
                      (case lowerCapture (matchStr (compile flags_im transferEncodingPattern) partHeaders) of
                         Inl e \<Rightarrow> (Inl e, con)
                       | Inr transferEncoding \<Rightarrow>
                           if includesStr contentType (asc ''text/plain'') then
                             (case decodeContent partBody (Some transferEncoding) con of
                                (decoded, con') \<Rightarrow> (Inr (decoded, htmlBody), con'))
                           else if includesStr contentType (asc ''text/html'') then
                             (case decodeContent partBody (Some transferEncoding) con of
                                (decoded, con') \<Rightarrow> scanParts parts plainTextBody decoded con')
                           else scanParts parts plainTextBody htmlBody con)))"

text \<open>The last statements of the function: the plain text if there is any, else the HTML
  with every tag replaced by a space, else the empty string.\<close>

definition resolve :: "jsstring \<Rightarrow> jsstring \<Rightarrow> jsstring" where
  "resolve plainTextBody htmlBody =
     (if trim plainTextBody \<noteq> [] then trim plainTextBody
      else if trim htmlBody \<noteq> [] then
        trim (replace (compile flags_m tagPattern) (\<lambda>match cs. asc '' '') htmlBody)
      else [])"

text \<open>The text a template literal inserts for a value: \<open>undefined\<close> for an undefined one.\<close>

definition interpolate :: "jsstring option \<Rightarrow> jsstring" where
  "interpolate v = (case v of None \<Rightarrow> asc ''undefined'' | Some s \<Rightarrow> s)"

definition boundaryRegexSource :: "jsstring \<Rightarrow> jsstring" where
  "boundaryRegexSource boundary = pat ''(?:%r%n)?--'' @ boundary @ pat ''(?:--)?(?:%r%n)?''"

definition multipartBranch :: "host_regexp \<Rightarrow> captures \<Rightarrow> jsstring \<Rightarrow> console \<Rightarrow>
                               (js_error + jsstring) \<times> console" where
  "multipartBranch host contentTypeHeaderMatch rawBodyContent con =
     (let boundary = interpolate (element contentTypeHeaderMatch 0)
      in case RegExp_new host (boundaryRegexSource boundary) of
           Inl e \<Rightarrow> (Inl e, con)
         | Inr boundaryRegex \<Rightarrow>
             (case split boundaryRegex rawBodyContent of
                Inl e \<Rightarrow> (Inl e, con)
              | Inr parts \<Rightarrow>
                  (case scanParts parts [] [] con of
                     (Inl e, con') \<Rightarrow> (Inl e, con')
                   | (Inr (plainTextBody, htmlBody), con') \<Rightarrow>
                       (Inr (resolve plainTextBody htmlBody), con'))))"

definition singlePartBranch :: "jsstring \<Rightarrow> jsstring \<Rightarrow> console \<Rightarrow> (js_error + jsstring) \<times> console" where
  "singlePartBranch initialHeaders rawBodyContent con =
     (case lowerCapture (matchStr (compile flags_im transferEncodingPattern) initialHeaders) of
        Inl e \<Rightarrow> (Inl e, con)
      | Inr transferEncoding \<Rightarrow>
          (case decodeContent rawBodyContent (Some transferEncoding) con of
             (plainTextBody, con') \<Rightarrow> (Inr (resolve plainTextBody []), con')))"

text \<open>
  The result is the value the returned promise resolves with (\<open>Inr\<close>) or the error it
  rejects with (\<open>Inl\<close>), and the console afterwards.
\<close>

definition extractEmailBody :: "host_regexp \<Rightarrow> jsstring \<Rightarrow> console \<Rightarrow> (js_error + jsstring) \<times> console" where
  "extractEmailBody host rawEmailContent con =
     (case indexOf rawEmailContent CRLFCRLF of
        None \<Rightarrow> (Inr (trim rawEmailContent), con)
      | Some bodySeparatorIndex \<Rightarrow>
         (let initialHeaders = substring rawEmailContent 0 bodySeparatorIndex;
              rawBodyContent = substringFrom rawEmailContent (bodySeparatorIndex + 4)
          in case matchStr (compile flags_im contentTypeHeaderPattern) initialHeaders of
               None \<Rightarrow> singlePartBranch initialHeaders rawBodyContent con
             | Some contentTypeHeaderMatch \<Rightarrow>
                 if rawBodyContent \<noteq> []
                 then multipartBranch host contentTypeHeaderMatch rawBodyContent con
                 else singlePartBranch initialHeaders rawBodyContent con))"

text \<open>
  A runtime that rejects every pattern outside the grammar read above and that reaches none
  of its limits.
\<close>

definition noHost :: host_regexp where
  "noHost = \<lparr>beyond = (\<lambda>src. None), refuses = (\<lambda>src. None), abandons = (\<lambda>src s. None)\<rparr>"


section \<open>Notions used to state the properties\<close>

text \<open>
  \<open>alwaysSets j r\<close>: a sufficient syntactic condition for every match of \<open>r\<close> to define
  capture \<open>j\<close> (counted from 0): a group that is always passed and not reset afterwards.
\<close>

fun alwaysSets :: "nat \<Rightarrow> regex \<Rightarrow> bool" where
  "alwaysSets j (Group k r) = (k - 1 = j \<or> alwaysSets j r)"
| "alwaysSets j (Seq r1 r2) =
     (alwaysSets j r2 \<or> (alwaysSets j r1 \<and> j \<notin> (\<lambda>k. k - 1) ` set (groupsOf r2)))"
| "alwaysSets j (Alt r1 r2) = (alwaysSets j r1 \<and> alwaysSets j r2)"
| "alwaysSets j r = False"

text \<open>
  The condition of the multipart branch: the input has a separator, the header block before
  it matches the multipart expression, and the body after it is not empty. The value is the
  match and the body.
\<close>

definition multipartInput :: "jsstring \<Rightarrow> (captures \<times> jsstring) option" where
  "multipartInput rawEmailContent =
     (case indexOf rawEmailContent CRLFCRLF of
        None \<Rightarrow> None
      | Some i \<Rightarrow>
          (case matchStr (compile flags_im contentTypeHeaderPattern) (substring rawEmailContent 0 i) of
             None \<Rightarrow> None
           | Some cs \<Rightarrow>
               if substringFrom rawEmailContent (i + 4) \<noteq> []
               then Some (cs, substringFrom rawEmailContent (i + 4)) else None))"

text \<open>
  What one pass of the loop reads from a part: its headers and body, its content type and
  transfer encoding (lower-cased, empty when the header is missing), and what the loop does
  with it: a part that is blank or has no separator is skipped, a part whose content type
  contains \<open>text/plain\<close> or \<open>text/html\<close> is decoded, any other part is passed over.
\<close>

definition partHeaders :: "jsstring \<Rightarrow> jsstring" where
  "partHeaders part = (case indexOf part CRLFCRLF of None \<Rightarrow> [] | Some i \<Rightarrow> substring part 0 i)"

definition partBody :: "jsstring \<Rightarrow> jsstring" where
  "partBody part = (case indexOf part CRLFCRLF of None \<Rightarrow> [] | Some i \<Rightarrow> substringFrom part (i + 4))"

definition orEmpty :: "js_error + jsstring \<Rightarrow> jsstring" where
  "orEmpty v = (case v of Inl e \<Rightarrow> [] | Inr s \<Rightarrow> s)"

definition partContentType :: "jsstring \<Rightarrow> jsstring" where
  "partContentType part =
     orEmpty (lowerCapture (matchStr (compile flags_im partContentTypePattern) (partHeaders part)))"

definition partTransferEncoding :: "jsstring \<Rightarrow> jsstring" where
  "partTransferEncoding part =
     orEmpty (lowerCapture (matchStr (compile flags_im transferEncodingPattern) (partHeaders part)))"

datatype part_kind = Skipped | PlainPart | HtmlPart | OtherPart

definition partKind :: "jsstring \<Rightarrow> part_kind" where
  "partKind part =
     (if trim part = [] \<or> indexOf part CRLFCRLF = None then Skipped
      else if includesStr (partContentType part) (asc ''text/plain'') then PlainPart
      else if includesStr (partContentType part) (asc ''text/html'') then HtmlPart
      else OtherPart)"

definition partDecoded :: "jsstring \<Rightarrow> jsstring" where
  "partDecoded part = fst (decodeContent (partBody part) (Some (partTransferEncoding part)) [])"

definition partWarnings :: "jsstring \<Rightarrow> console" where
  "partWarnings part = snd (decodeContent (partBody part) (Some (partTransferEncoding part)) [])"


text \<open>
  The runtime reaches none of its limits on a message: in the multipart branch, it makes an
  expression of the pattern built from the boundary, and runs it on the body to the end.
\<close>

definition withinLimits :: "host_regexp \<Rightarrow> jsstring \<Rightarrow> bool" where
  "withinLimits host rawEmailContent =
     (case multipartInput rawEmailContent of
        None \<Rightarrow> True
      | Some (cs, body) \<Rightarrow>
          refuses host (boundaryRegexSource (interpolate (element cs 0))) = None
          \<and> abandons host (boundaryRegexSource (interpolate (element cs 0))) body = None)"

text \<open>
  Two messages whose boundary \<open>(x)?y\<close> has a group that takes no part in the match of the
  delimiter \<open>--y\<close>: in the first the delimiter comes before the \<open>text/plain\<close> part, in the
  second after it.
\<close>

definition optionalGroupMessage :: jsstring where
  "optionalGroupMessage =
     asc ''Content-Type: multipart/mixed; boundary=(x)?y'' @ CRLF @ CRLF @
     asc ''--y'' @ CRLF @ asc ''Content-Type: text/plain'' @ CRLF @ CRLF @ asc ''hi''"

definition optionalGroupLastMessage :: jsstring where
  "optionalGroupLastMessage =
     asc ''Content-Type: multipart/mixed; boundary=(x)?y'' @ CRLF @ CRLF @
     asc ''Content-Type: text/plain'' @ CRLF @ CRLF @ asc ''hi'' @ CRLF @ asc ''--y--''"

text \<open>Three messages used as instances below.\<close>

definition plainFirstMessage :: jsstring where
  "plainFirstMessage =
     asc ''Content-Type: multipart/alternative; boundary=b1'' @ CRLF @ CRLF @
     asc ''--b1'' @ CRLF @ asc ''Content-Type: text/plain'' @ CRLF @ CRLF @ asc ''plain text'' @ CRLF @
     asc ''--b1'' @ CRLF @ asc ''Content-Type: text/html'' @ CRLF @ CRLF @ asc ''<p>html</p>'' @ CRLF @
     asc ''--b1--'' @ CRLF"


definition twoHtmlMessage :: jsstring where
  "twoHtmlMessage =
     asc ''Content-Type: multipart/alternative; boundary=b1'' @ CRLF @ CRLF @
     asc ''--b1'' @ CRLF @ asc ''Content-Type: text/html'' @ CRLF @ CRLF @ asc ''<p>first</p>'' @ CRLF @
     asc ''--b1'' @ CRLF @ asc ''Content-Type: text/html'' @ CRLF @ CRLF @ asc ''<p>second</p>'' @ CRLF @
     asc ''--b1--'' @ CRLF"


text \<open>
  Valid base64, as \<open>atob\<close> takes it: after the padding is removed (one or two \<open>=\<close> at the
  end of a text whose length is a multiple of 4), the length is not 1 modulo 4 and every
  code unit is a letter, a digit, \<open>+\<close> or \<open>/\<close>.
\<close>

definition isBase64Char :: "codeunit \<Rightarrow> bool" where
  "isBase64Char c = (isUpper c \<or> isLower c \<or> isDigit c \<or> c = cu CHR ''+'' \<or> c = cu CHR ''/'')"

definition validBase64 :: "jsstring \<Rightarrow> bool" where
  "validBase64 s =
     (let d = (if length s mod 4 = 0 then stripPadding s else s)
      in length d mod 4 \<noteq> 1 \<and> list_all isBase64Char d)"

text \<open>
  Quoted-printable decoding in the words of the specification: first every soft line break
  (\<open>=\<close> followed by CRLF) is removed; then, from left to right, every \<open>=XX\<close> with two
  hexadecimal digits is replaced by the one character whose code is that value.
\<close>

fun removeSoftBreaks :: "jsstring \<Rightarrow> jsstring" where
  "removeSoftBreaks (a # b # c # rest) =
     (if a = cu CHR ''='' \<and> b = 0x0D \<and> c = 0x0A then removeSoftBreaks rest
      else a # removeSoftBreaks (b # c # rest))"
| "removeSoftBreaks s = s"

fun decodeEscapes :: "jsstring \<Rightarrow> jsstring" where
  "decodeEscapes (a # b # c # rest) =
     (if a = cu CHR ''='' \<and> isHexDigit b \<and> isHexDigit c
      then of_nat (16 * hexValue b + hexValue c) # decodeEscapes rest
      else a # decodeEscapes (b # c # rest))"
| "decodeEscapes s = s"

definition cafeMessage :: jsstring where
  "cafeMessage = asc ''Content-Transfer-Encoding: quoted-printable'' @ CRLF @ CRLF @ asc ''Caf=C3=A9''"

definition htmlOnlyMessage :: jsstring where
  \<open>htmlOnlyMessage =
     asc ''Content-Type: multipart/alternative; boundary="b1"'' @ CRLF @ CRLF @
     asc ''--b1'' @ CRLF @ asc ''Content-Type: text/html'' @ CRLF @ CRLF @
     asc ''<p>Hi <b>there</b></p>'' @ CRLF @ asc ''--b1--'' @ CRLF\<close>


text \<open>
  The shape of a header line that declares a multipart message, stated without the
  expression: text equal up to the case of ASCII letters, and the characters of a subtype.
\<close>

definition equalIgnoringCase :: "codeunit \<Rightarrow> codeunit \<Rightarrow> bool" where
  "equalIgnoringCase c a = (c = a \<or> upperAscii c = a \<or> lowerAscii c = a)"

definition sameIgnoringCase :: "jsstring \<Rightarrow> jsstring \<Rightarrow> bool" where
  "sameIgnoringCase w v = list_all2 equalIgnoringCase w v"

definition isSubtypeChar :: "codeunit \<Rightarrow> bool" where
  "isSubtypeChar c =
     (isLower c \<or> isUpper c \<or> isDigit c \<or> c = cu CHR ''.'' \<or> c = cu CHR ''_'' \<or> c = cu CHR ''-'')"

text \<open>
  \<open>reaches f r a b\<close>: from the input and captures \<open>a\<close>, whatever the code unit before the
  position, some match of \<open>r\<close> ends with the input and captures \<open>b\<close>.
\<close>

definition reaches :: "flags \<Rightarrow> regex \<Rightarrow> jsstring \<times> captures \<Rightarrow> jsstring \<times> captures \<Rightarrow> bool" where
  "reaches f r a b = (\<forall>p. \<exists>q. (q, fst b, snd b) \<in> set (m f r (p, fst a, snd a)))"

text \<open>The multipart expression after its \<open>^\<close>, cut where the proof below cuts it.\<close>

definition boundaryTail :: "regex list" where
  "boundaryTail =
     [Repeat 0 (Some (Suc 0)) True (lit 0x22),
      Group (Suc 0) (Repeat (Suc 0) None True (Chars True [Single 0x22, Escape Space])),
      Repeat 0 (Some (Suc 0)) True (lit 0x22)]"

definition subtypeTail :: "regex list" where
  "subtypeTail =
     Repeat (Suc 0) None True
       (Chars False [Range 97 122, Range 65 90, Range 48 57, Single 46, Single 95, Single 45])
     # lit 59 # Repeat 0 None True (Chars False [Escape Space])
     # map lit (asc ''boundary='') @ boundaryTail"

definition headerTail :: "regex list" where
  "headerTail =
     map lit (asc ''Content-Type:'') @ Repeat 0 None True (Chars False [Escape Space])
     # map lit (asc ''multipart/'') @ subtypeTail"

definition foldedHeaderMessage :: jsstring where
  \<open>foldedHeaderMessage =
     asc ''From: a@b'' @ CRLF @ asc ''content-type: Multipart/Mixed;'' @ CRLF @
     asc '' boundary="b1"'' @ CRLF @ CRLF @
     asc ''--b1'' @ CRLF @ asc ''Content-Type: text/plain'' @ CRLF @ CRLF @ asc ''hello'' @ CRLF @
     asc ''--b1--'' @ CRLF\<close>

definition charsetFirstMessage :: jsstring where
  "charsetFirstMessage =
     asc ''Content-Type: multipart/alternative; charset=utf-8; boundary=b1'' @ CRLF @ CRLF @
     asc ''--b1'' @ CRLF @ asc ''Content-Type: text/plain'' @ CRLF @ CRLF @ asc ''plain text'' @ CRLF @
     asc ''--b1--'' @ CRLF"


text \<open>
  Replacing tags in the words of the specification: outside a tag, \<open><\<close> opens a tag and
  gives one space; inside a tag everything is dropped, up to and with the next \<open>>\<close> (or to
  the end of the text when there is none). \<open>afterTag xs\<close> is what follows the tag that \<open>xs\<close>
  continues.
\<close>

fun tagsToSpaces :: "bool \<Rightarrow> jsstring \<Rightarrow> jsstring" where
  "tagsToSpaces inTag [] = []"
| "tagsToSpaces inTag (c # cs) =
     (if inTag then (if c = cu CHR ''>'' then tagsToSpaces False cs else tagsToSpaces True cs)
      else if c = cu CHR ''<'' then 0x20 # tagsToSpaces True cs
      else c # tagsToSpaces False cs)"

definition afterTag :: "jsstring \<Rightarrow> jsstring" where
  "afterTag xs = (case dropWhile (\<lambda>c. c \<noteq> cu CHR ''>'') xs of [] \<Rightarrow> [] | g # rest \<Rightarrow> rest)"


section \<open>Strings: occurrences and trimming\<close>

lemma startsWith_iff: "startsWith s n \<longleftrightarrow> (\<exists>post. s = n @ post)"
  by (induction n arbitrary: s) (auto split: list.splits)

lemma indexOf_Some_occurs:
  "indexOf s n = Some i \<Longrightarrow> \<exists>post. s = take i s @ n @ post \<and> i \<le> length s"
proof (induction s arbitrary: i)
  case Nil
  then show ?case by (auto split: if_splits)
next
  case (Cons c cs)
  show ?case
  proof (cases "startsWith (c # cs) n")
    case True
    with Cons.prems show ?thesis by (auto simp: startsWith_iff)
  next
    case False
    with Cons.prems obtain j where j: "indexOf cs n = Some j" "i = Suc j" by auto
    from Cons.IH[OF j(1)] j(2) show ?thesis by auto
  qed
qed

lemma indexOf_occurs_Some:
  "s = pre @ n @ post \<Longrightarrow> indexOf s n \<noteq> None"
proof (induction pre arbitrary: s)
  case Nil
  have "startsWith (n @ post) n" by (simp add: startsWith_iff)
  with Nil show ?case by (cases "n @ post") auto
next
  case (Cons c pre)
  then show ?case by (auto simp: startsWith_iff)
qed

lemma indexOf_None_iff: "indexOf s n = None \<longleftrightarrow> (\<forall>pre post. s \<noteq> pre @ n @ post)"
  using indexOf_occurs_Some indexOf_Some_occurs
  by (metis not_Some_eq)

lemma trim_Nil: "trim [] = []"
  by (simp add: trim_def)

lemma trim_trim: "trim (trim s) = trim s"
proof -
  define t where "t = dropWhile isWhiteSpace s"
  define u where "u = rev (dropWhile isWhiteSpace (rev t))"
  have split: "t = u @ rev (takeWhile isWhiteSpace (rev t))"
  proof -
    have "t = rev (takeWhile isWhiteSpace (rev t) @ dropWhile isWhiteSpace (rev t))"
      by (simp only: takeWhile_dropWhile_id rev_rev_ident)
    also have "\<dots> = rev (dropWhile isWhiteSpace (rev t)) @ rev (takeWhile isWhiteSpace (rev t))"
      by (simp only: rev_append)
    finally show ?thesis by (simp only: u_def)
  qed
  have A: "dropWhile isWhiteSpace u = u"
  proof (cases u)
    case Nil
    then show ?thesis by simp
  next
    case (Cons a as)
    from split Cons obtain v where tv: "t = a # v" by simp
    then have "t \<noteq> []" and "hd t = a" by simp_all
    then have "\<not> isWhiteSpace a" unfolding t_def using hd_dropWhile by metis
    with Cons show ?thesis by simp
  qed
  have B: "dropWhile isWhiteSpace (rev u) = rev u"
    by (simp add: u_def)
  have "trim s = u" by (simp add: trim_def t_def u_def)
  moreover have "trim u = u" by (simp add: trim_def A B)
  ultimately show ?thesis by simp
qed

lemma resolve_trimmed: "trim (resolve a b) = resolve a b"
  by (simp add: resolve_def trim_trim trim_Nil)


section \<open>Messages without a separator\<close>

text \<open>
  Claim C3. An input in which the sequence CRLF CRLF does not occur is returned with its
  leading and trailing white space trimmed; no header is read and nothing is decoded (the
  console is left as it was).
\<close>

theorem extractEmailBody_no_separator:
  assumes "\<And>pre post. rawEmailContent \<noteq> pre @ CRLF @ CRLF @ post"
  shows "extractEmailBody host rawEmailContent con = (Inr (trim rawEmailContent), con)"
proof -
  have "indexOf rawEmailContent CRLFCRLF = None"
    using assms by (simp add: indexOf_None_iff CRLFCRLF_def)
  then show ?thesis by (simp add: extractEmailBody_def)
qed

theorem extractEmailBody_no_separator_witness:
  "extractEmailBody noHost (asc '' Subject: hi'' @ CRLF @ asc ''there  '') []
     = (Inr (asc ''Subject: hi'' @ CRLF @ asc ''there''), [])"
proof -
  have "indexOf (asc '' Subject: hi'' @ CRLF @ asc ''there  '') (CRLF @ CRLF) = None"
    by code_simp
  then have h: "\<And>pre post. asc '' Subject: hi'' @ CRLF @ asc ''there  '' \<noteq> pre @ CRLF @ CRLF @ post"
    by (simp add: indexOf_None_iff)
  have t: "trim (asc '' Subject: hi'' @ CRLF @ asc ''there  '') = asc ''Subject: hi'' @ CRLF @ asc ''there''"
    by code_simp
  show ?thesis
    using extractEmailBody_no_separator [OF h, of noHost "[]"] by (simp only: t)
qed


section \<open>The result is trimmed\<close>

lemma trim_ends:
  assumes "trim s \<noteq> []"
  shows "\<not> isWhiteSpace (hd (trim s)) \<and> \<not> isWhiteSpace (last (trim s))"
proof -
  define t where "t = dropWhile isWhiteSpace s"
  define u where "u = dropWhile isWhiteSpace (rev t)"
  have tu: "trim s = rev u" by (simp add: trim_def t_def u_def)
  with assms have une: "u \<noteq> []" by simp
  then have "\<not> isWhiteSpace (hd u)"
    unfolding u_def using hd_dropWhile by metis
  then have l: "\<not> isWhiteSpace (last (trim s))"
    using une by (simp add: tu last_rev)
  have "set u \<subseteq> set (rev t)"
    unfolding u_def using set_dropWhileD by fastforce
  then have ut: "last u \<in> set t" using une last_in_set by fastforce
  then have tne: "t \<noteq> []" by auto
  have split: "rev t = takeWhile isWhiteSpace (rev t) @ u"
    by (simp add: u_def)
  then have "t = rev u @ rev (takeWhile isWhiteSpace (rev t))"
    by (metis rev_append rev_rev_ident)
  with une have "hd t = hd (rev u)" by (metis hd_append2 rev_is_Nil_conv)
  moreover have "\<not> isWhiteSpace (hd t)"
    unfolding t_def using tne hd_dropWhile t_def by metis
  ultimately have "\<not> isWhiteSpace (hd (trim s))" by (simp add: tu)
  with l show ?thesis by simp
qed

text \<open>
  Claim C10. Whatever \<open>extractEmailBody\<close> returns has no leading or trailing white space:
  the value returned equals its own trim, and when it is not empty, neither its first nor
  its last code unit is white space or a line terminator.
\<close>

theorem extractEmailBody_trimmed:
  assumes "extractEmailBody host rawEmailContent con = (Inr s, con')"
  shows "trim s = s \<and> (s \<noteq> [] \<longrightarrow> \<not> isWhiteSpace (hd s) \<and> \<not> isWhiteSpace (last s))"
proof -
  from assms have t: "trim s = s"
    by (auto simp: extractEmailBody_def multipartBranch_def singlePartBranch_def Let_def
          trim_trim resolve_trimmed
        split: option.splits sum.splits prod.splits if_splits)
  with trim_ends[of s] show ?thesis by simp
qed

theorem extractEmailBody_trimmed_witness:
  "isWhiteSpace (hd ([0x09, 0xA0] @ asc ''hello  world'' @ [0x20, 0xFEFF]))
   \<and> isWhiteSpace (last ([0x09, 0xA0] @ asc ''hello  world'' @ [0x20, 0xFEFF]))
   \<and> extractEmailBody noHost ([0x09, 0xA0] @ asc ''hello  world'' @ [0x20, 0xFEFF]) []
       = (Inr (asc ''hello  world''), [])
   \<and> \<not> isWhiteSpace (hd (asc ''hello  world''))
   \<and> \<not> isWhiteSpace (last (asc ''hello  world''))"
proof -
  have e: "extractEmailBody noHost ([0x09, 0xA0] @ asc ''hello  world'' @ [0x20, 0xFEFF]) []
           = (Inr (asc ''hello  world''), [])"
    by code_simp
  have w: "isWhiteSpace (hd ([0x09, 0xA0] @ asc ''hello  world'' @ [0x20, 0xFEFF]))
           \<and> isWhiteSpace (last ([0x09, 0xA0] @ asc ''hello  world'' @ [0x20, 0xFEFF]))"
    by code_simp
  have n: "asc ''hello  world'' \<noteq> []" by (simp add: asc_def)
  have "trim (asc ''hello  world'') = asc ''hello  world''
        \<and> (asc ''hello  world'' \<noteq> [] \<longrightarrow>
             \<not> isWhiteSpace (hd (asc ''hello  world'')) \<and> \<not> isWhiteSpace (last (asc ''hello  world'')))"
    by (rule extractEmailBody_trimmed [OF e])
  with n w e show ?thesis by blast
qed


section \<open>The matcher: positions and captures\<close>

lemma clear_length [simp]: "length (clear ks cs) = length cs"
  by (induction ks arbitrary: cs) auto

lemma clear_nth: "j \<notin> (\<lambda>k. k - 1) ` set ks \<Longrightarrow> clear ks cs ! j = cs ! j"
  by (induction ks arbitrary: cs) (auto simp: nth_list_update)

lemma m_length_rest:
  "y \<in> set (m f r x) \<Longrightarrow> length (fst (snd y)) \<le> length (fst (snd x)) \<and> length (snd (snd y)) = length (snd (snd x))"
proof (induction f r x arbitrary: y rule: m.induct)
  case (1 f x)
  then show ?case by simp
next
  case (2 f invert items p xs cs)
  then show ?case by (auto split: list.splits if_splits)
next
  case (3 f r1 r2 x)
  from "3.prems" obtain z where z: "z \<in> set (m f r1 x)" and y: "y \<in> set (m f r2 z)"
    by auto
  from "3.IH"(1)[OF z] "3.IH"(2)[OF z y] show ?case by simp
next
  case (4 f r1 r2 x)
  from "4.prems" have "y \<in> set (m f r1 x) \<or> y \<in> set (m f r2 x)" by simp
  then show ?case using "4.IH" by blast
next
  case (5 f k r p xs cs)
  from "5.prems" obtain z where z: "z \<in> set (m f r (p, xs, cs))"
    and y: "y = (fst z, fst (snd z), (snd (snd z))[k - 1 := Some (take (length xs - length (fst (snd z))) xs)])"
    by (auto simp: case_prod_beta)
  from "5.IH"[OF z] y show ?case by simp
next
  case (6 f mn mx g r p xs cs)
  show ?case
  proof (cases "mx = Some 0")
    case True
    with 6 show ?thesis by simp
  next
    case False
    show ?thesis
    proof (cases "y = (p, xs, cs)")
      case True
      then show ?thesis by simp
    next
      case ny: False
      with False "6.prems" obtain z where
        z: "z \<in> set (m f r (p, xs, clear (groupsOf r) cs))"
        and nz: "\<not> (mn = 0 \<and> \<not> length (fst (snd z)) < length xs)"
        and y: "y \<in> set (m f (Repeat (mn - 1) (map_option (\<lambda>k. k - 1) mx) g r) z)"
        by (auto simp: Let_def split: if_splits)
      from "6.IH"(1)[OF False z] have a: "length (fst (snd z)) \<le> length xs" "length (snd (snd z)) = length cs"
        by simp_all
      from "6.IH"(2)[OF False z nz y] a show ?thesis by simp
    qed
  qed
next
  case (7 f p xs cs)
  then show ?case by (auto split: option.splits if_splits)
next
  case (8 f p xs cs)
  then show ?case by (auto split: list.splits if_splits)
qed

lemma m_caps_other:
  "y \<in> set (m f r x) \<Longrightarrow> j \<notin> (\<lambda>k. k - 1) ` set (groupsOf r) \<Longrightarrow> snd (snd y) ! j = snd (snd x) ! j"
proof (induction f r x arbitrary: y rule: m.induct)
  case (1 f x)
  then show ?case by simp
next
  case (2 f invert items p xs cs)
  then show ?case by (auto split: list.splits if_splits)
next
  case (3 f r1 r2 x)
  from "3.prems" obtain z where z: "z \<in> set (m f r1 x)" and y: "y \<in> set (m f r2 z)"
    by auto
  from "3.prems"(2) have j: "j \<notin> (\<lambda>k. k - 1) ` set (groupsOf r1)" "j \<notin> (\<lambda>k. k - 1) ` set (groupsOf r2)"
    by auto
  from "3.IH"(1)[OF z j(1)] "3.IH"(2)[OF z y j(2)] show ?case by simp
next
  case (4 f r1 r2 x)
  from "4.prems" have "y \<in> set (m f r1 x) \<or> y \<in> set (m f r2 x)" by simp
  moreover from "4.prems"(2) have "j \<notin> (\<lambda>k. k - 1) ` set (groupsOf r1)" "j \<notin> (\<lambda>k. k - 1) ` set (groupsOf r2)"
    by auto
  ultimately show ?case using "4.IH" by blast
next
  case (5 f k r p xs cs)
  from "5.prems" obtain z where z: "z \<in> set (m f r (p, xs, cs))"
    and y: "y = (fst z, fst (snd z), (snd (snd z))[k - 1 := Some (take (length xs - length (fst (snd z))) xs)])"
    by (auto simp: case_prod_beta)
  from "5.prems"(2) have j: "j \<noteq> k - 1" "j \<notin> (\<lambda>k. k - 1) ` set (groupsOf r)" by auto
  from "5.IH"[OF z j(2)] y j(1) show ?case by simp
next
  case (6 f mn mx g r p xs cs)
  from "6.prems"(2) have j: "j \<notin> (\<lambda>k. k - 1) ` set (groupsOf r)" by simp
  show ?case
  proof (cases "mx = Some 0")
    case True
    with 6 show ?thesis by simp
  next
    case False
    show ?thesis
    proof (cases "y = (p, xs, cs)")
      case True
      then show ?thesis by simp
    next
      case ny: False
      with False "6.prems" obtain z where
        z: "z \<in> set (m f r (p, xs, clear (groupsOf r) cs))"
        and nz: "\<not> (mn = 0 \<and> \<not> length (fst (snd z)) < length xs)"
        and y: "y \<in> set (m f (Repeat (mn - 1) (map_option (\<lambda>k. k - 1) mx) g r) z)"
        by (auto simp: Let_def split: if_splits)
      from "6.IH"(1)[OF False z j] have a: "snd (snd z) ! j = cs ! j"
        by (simp add: clear_nth[OF j])
      have j': "j \<notin> (\<lambda>k. k - 1) ` set (groupsOf (Repeat (mn - 1) (map_option (\<lambda>k. k - 1) mx) g r))"
        using j by simp
      from "6.IH"(2)[OF False z nz y j'] a show ?thesis by simp
    qed
  qed
next
  case (7 f p xs cs)
  then show ?case by (auto split: option.splits if_splits)
next
  case (8 f p xs cs)
  then show ?case by (auto split: list.splits if_splits)
qed

lemma m_alwaysSets:
  "alwaysSets j r \<Longrightarrow> y \<in> set (m f r x) \<Longrightarrow> j < length (snd (snd x)) \<Longrightarrow> snd (snd y) ! j \<noteq> None"
proof (induction r arbitrary: x y)
  case (Seq r1 r2)
  from Seq.prems(2) obtain z where z: "z \<in> set (m f r1 x)" and y: "y \<in> set (m f r2 z)"
    by auto
  have lz: "j < length (snd (snd z))" using m_length_rest[OF z] Seq.prems(3) by simp
  show ?case
  proof (cases "alwaysSets j r2")
    case True
    from Seq.IH(2)[OF True y lz] show ?thesis .
  next
    case False
    with Seq.prems(1) have d: "alwaysSets j r1" and nj: "j \<notin> (\<lambda>k. k - 1) ` set (groupsOf r2)" by auto
    from Seq.IH(1)[OF d z Seq.prems(3)] m_caps_other[OF y nj] show ?thesis by simp
  qed
next
  case (Alt r1 r2)
  from Alt.prems(1) have d: "alwaysSets j r1" "alwaysSets j r2" by simp_all
  from Alt.prems(2) have "y \<in> set (m f r1 x) \<or> y \<in> set (m f r2 x)" by simp
  then show ?case
  proof
    assume "y \<in> set (m f r1 x)"
    from Alt.IH(1)[OF d(1) this Alt.prems(3)] show ?thesis .
  next
    assume "y \<in> set (m f r2 x)"
    from Alt.IH(2)[OF d(2) this Alt.prems(3)] show ?thesis .
  qed
next
  case (Group k r)
  obtain p xs cs where x: "x = (p, xs, cs)" by (cases x) auto
  from Group.prems(2) x obtain z where z: "z \<in> set (m f r (p, xs, cs))"
    and y: "y = (fst z, fst (snd z), (snd (snd z))[k - 1 := Some (take (length xs - length (fst (snd z))) xs)])"
    by (auto simp: case_prod_beta)
  have lz: "j < length (snd (snd z))" using m_length_rest[OF z] Group.prems(3) x by simp
  show ?case
  proof (cases "k - 1 = j")
    case True
    with y lz show ?thesis by simp
  next
    case False
    with Group.prems(1) have "alwaysSets j r" by simp
    from Group.IH[OF this z] Group.prems(3) x have "snd (snd z) ! j \<noteq> None" by simp
    with y False lz show ?thesis by simp
  qed
qed simp_all

lemma sets_partContentType: "alwaysSets 0 partContentTypePattern"
  by (simp add: partContentTypePattern_def asc_def lit_def whiteSpace_def)

lemma sets_transferEncoding: "alwaysSets 0 transferEncodingPattern"
  by (simp add: transferEncodingPattern_def asc_def lit_def whiteSpace_def)

lemma sets_contentTypeHeader: "alwaysSets 0 contentTypeHeaderPattern"
  by (simp add: contentTypeHeaderPattern_def asc_def lit_def whiteSpace_def)

lemma search_Some:
  "search M pre s = Some (i, n, cs) \<Longrightarrow> \<exists>a b. M a b = Some (n, cs)"
  by (induction M pre s rule: search.induct) (auto split: option.splits)

lemma compile_alwaysSets:
  assumes "compile f r a b = Some (n, cs)" and "alwaysSets 0 r" and "groupsOf r \<noteq> []"
  shows "element cs 0 \<noteq> None"
proof -
  from assms(1) obtain p ys rest where
    e: "m f r (lastUnit a, b, replicate (length (groupsOf r)) None) = (p, ys, cs) # rest"
    by (auto simp: compile_def split: list.splits)
  then have y: "(p, ys, cs) \<in> set (m f r (lastUnit a, b, replicate (length (groupsOf r)) None))"
    by simp
  from assms(3) have l: "0 < length (snd (snd (lastUnit a, b, replicate (length (groupsOf r)) (None :: jsstring option))))"
    by simp
  from m_alwaysSets[OF assms(2) y l] have "cs ! 0 \<noteq> None" by simp
  moreover from m_length_rest[OF y] assms(3) have "0 < length cs" by simp
  ultimately show ?thesis by (simp add: element_def)
qed

lemma matchStr_alwaysSets:
  assumes "matchStr (compile f r) s = Some cs" and "alwaysSets 0 r" and "groupsOf r \<noteq> []"
  shows "\<exists>t. element cs 0 = Some t"
proof -
  from assms(1) obtain i n where "search (compile f r) [] s = Some (i, n, cs)"
    by (auto simp: matchStr_def)
  from search_Some[OF this] obtain a b where "compile f r a b = Some (n, cs)" by blast
  from compile_alwaysSets[OF this assms(2,3)] show ?thesis by auto
qed

lemma lowerCapture_partContentType:
  "\<exists>t. lowerCapture (matchStr (compile f partContentTypePattern) s) = Inr t"
proof (cases "matchStr (compile f partContentTypePattern) s")
  case None
  then show ?thesis by (simp add: lowerCapture_def)
next
  case (Some cs)
  have "groupsOf partContentTypePattern \<noteq> []"
    by (simp add: partContentTypePattern_def asc_def lit_def whiteSpace_def)
  from matchStr_alwaysSets[OF Some sets_partContentType this] Some show ?thesis
    by (auto simp: lowerCapture_def)
qed

lemma lowerCapture_transferEncoding:
  "\<exists>t. lowerCapture (matchStr (compile f transferEncodingPattern) s) = Inr t"
proof (cases "matchStr (compile f transferEncodingPattern) s")
  case None
  then show ?thesis by (simp add: lowerCapture_def)
next
  case (Some cs)
  have "groupsOf transferEncodingPattern \<noteq> []"
    by (simp add: transferEncodingPattern_def asc_def lit_def whiteSpace_def)
  from matchStr_alwaysSets[OF Some sets_transferEncoding this] Some show ?thesis
    by (auto simp: lowerCapture_def)
qed


text \<open>The quantifiers over one code unit, unfolded once.\<close>

lemma star_Chars:
  "m f (Repeat 0 None True (Chars i its)) (p, [], cs) = [(p, [], cs)]"
  "m f (Repeat 0 None True (Chars i its)) (p, c # xs, cs) =
     (if charSetMatches f i its c
      then m f (Repeat 0 None True (Chars i its)) (Some c, xs, cs) @ [(p, c # xs, cs)]
      else [(p, c # xs, cs)])"
  by (subst m.simps(6), simp del: m.simps(6))+

lemma plus_Chars:
  "m f (Repeat (Suc 0) None True (Chars i its)) (p, [], cs) = []"
  "m f (Repeat (Suc 0) None True (Chars i its)) (p, c # xs, cs) =
     (if charSetMatches f i its c
      then m f (Repeat 0 None True (Chars i its)) (Some c, xs, cs)
      else [])"
  by (subst m.simps(6), simp del: m.simps(6))+

lemma opt_contains: "(p, xs, cs) \<in> set (m f (Repeat 0 (Some (Suc 0)) True r) (p, xs, cs))"
  by (subst m.simps(6)) (simp del: m.simps(6))

lemma opt_lit:
  "m f (Repeat 0 (Some (Suc 0)) True (lit a)) (p, [], cs) = [(p, [], cs)]"
  "m f (Repeat 0 (Some (Suc 0)) True (lit a)) (p, c # rest, cs) =
     (if charSetMatches f False [Single a] c
      then [(Some c, rest, cs), (p, c # rest, cs)] else [(p, c # rest, cs)])"
  by (subst m.simps(6), simp add: lit_def)+

lemma lit_then:
  "m f (Seq (lit a) r) (p, [], cs) = []"
  "m f (Seq (lit a) r) (p, c # xs, cs) =
     (if charSetMatches f False [Single a] c then m f r (Some c, xs, cs) else [])"
  by (simp_all add: lit_def)

lemma star_first:
  "\<exists>p' more. m f (Repeat 0 None True (Chars i its)) (p, xs, cs)
       = (p', dropWhile (charSetMatches f i its) xs, cs) # more"
proof (induction xs arbitrary: p)
  case Nil
  show ?case by (subst m.simps(6)) (simp del: m.simps(6))
next
  case (Cons c xs)
  show ?case
  proof (cases "charSetMatches f i its c")
    case True
    from Cons[of "Some c"] obtain p' more where
      "m f (Repeat 0 None True (Chars i its)) (Some c, xs, cs)
         = (p', dropWhile (charSetMatches f i its) xs, cs) # more" by blast
    with True show ?thesis by (subst m.simps(6)) (simp del: m.simps(6))
  next
    case False
    then show ?thesis by (subst m.simps(6)) (simp del: m.simps(6))
  qed
qed

section \<open>The expressions of the source, read from their text\<close>

text \<open>
  The patterns defined above are what the reader of patterns makes of the text of the
  expressions in the source (\<open>%\<close> stands for the backslash).
\<close>

lemma source_patterns:
  \<open>parsePattern (pat ''^Content-Type:%s*multipart%/[a-zA-Z0-9._-]+;%s*boundary="?([^"%s]+)"?'')
     = Parsed contentTypeHeaderPattern\<close>
  \<open>parsePattern (pat ''Content-Type:%s*([^;]+)(?:;%s*charset="?([^"%s]+)"?)?'')
     = Parsed partContentTypePattern\<close>
  \<open>parsePattern (pat ''Content-Transfer-Encoding:%s*([^%r%n]+)'') = Parsed transferEncodingPattern\<close>
  \<open>parsePattern (pat ''%s'') = Parsed whiteSpace\<close>
  \<open>parsePattern (pat ''=%r%n'') = Parsed softBreakPattern\<close>
  \<open>parsePattern (pat ''=([0-9A-Fa-f]{2})'') = Parsed hexEscapePattern\<close>
  \<open>parsePattern (pat ''<[^>]*>?'') = Parsed tagPattern\<close>
  by code_simp+


section \<open>The branches and the loop\<close>

lemma extractEmailBody_multipart:
  "multipartInput raw = Some (cs, body) \<Longrightarrow>
   extractEmailBody host raw con = multipartBranch host cs body con"
  by (auto simp: multipartInput_def extractEmailBody_def Let_def split: option.splits if_splits)

lemma singlePartBranch_returns: "\<exists>s con'. singlePartBranch h b con = (Inr s, con')"
proof -
  obtain t where "lowerCapture (matchStr (compile flags_im transferEncodingPattern) h) = Inr t"
    using lowerCapture_transferEncoding by blast
  then show ?thesis by (auto simp: singlePartBranch_def split: prod.splits)
qed

lemma extractEmailBody_not_multipart:
  "multipartInput raw = None \<Longrightarrow> \<exists>s con'. extractEmailBody host raw con = (Inr s, con')"
  using singlePartBranch_returns
  by (auto simp: multipartInput_def extractEmailBody_def Let_def split: option.splits if_splits)

lemma decodeContent_console:
  "decodeContent t e con = (fst (decodeContent t e []), con @ snd (decodeContent t e []))"
  by (simp add: decodeContent_def Let_def split: sum.splits)

lemma scanParts_step:
  "scanParts (Some part # parts) pl h con =
     (case partKind part of
        Skipped \<Rightarrow> scanParts parts pl h con
      | OtherPart \<Rightarrow> scanParts parts pl h con
      | PlainPart \<Rightarrow> (Inr (partDecoded part, h), con @ partWarnings part)
      | HtmlPart \<Rightarrow> scanParts parts pl (partDecoded part) (con @ partWarnings part))"
proof (cases "trim part = []")
  case True
  then show ?thesis by (simp add: partKind_def)
next
  case nb: False
  show ?thesis
  proof (cases "indexOf part CRLFCRLF")
    case None
    with nb show ?thesis by (simp add: partKind_def)
  next
    case (Some i)
    obtain ct where ct: "lowerCapture (matchStr (compile flags_im partContentTypePattern) (substring part 0 i)) = Inr ct"
      using lowerCapture_partContentType by blast
    obtain te where te: "lowerCapture (matchStr (compile flags_im transferEncodingPattern) (substring part 0 i)) = Inr te"
      using lowerCapture_transferEncoding by blast
    have pct: "partContentType part = ct"
      by (simp add: partContentType_def partHeaders_def Some ct orEmpty_def)
    have pte: "partTransferEncoding part = te"
      by (simp add: partTransferEncoding_def partHeaders_def Some te orEmpty_def)
    have pb: "partBody part = substringFrom part (i + 4)"
      by (simp add: partBody_def Some)
    have dc: "decodeContent (substringFrom part (i + 4)) (Some te) con
                = (partDecoded part, con @ partWarnings part)"
      using decodeContent_console[of "substringFrom part (i + 4)" "Some te" con]
      by (simp add: partDecoded_def partWarnings_def pb pte)
    show ?thesis
      using nb Some ct te dc by (simp add: partKind_def pct)
  qed
qed

lemma scanParts_console:
  "scanParts parts pl h con = (fst (scanParts parts pl h []), con @ snd (scanParts parts pl h []))"
proof (induction parts arbitrary: pl h con)
  case Nil
  then show ?case by simp
next
  case (Cons a parts)
  show ?case
  proof (cases a)
    case None
    then show ?thesis by simp
  next
    case (Some part)
    show ?thesis
    proof (cases "partKind part")
      case Skipped
      with Some Cons.IH[of pl h con] show ?thesis by (simp add: scanParts_step del: scanParts.simps(3))
    next
      case PlainPart
      with Some show ?thesis by (simp add: scanParts_step del: scanParts.simps(3))
    next
      case HtmlPart
      from Cons.IH[of pl "partDecoded part" "con @ partWarnings part"]
           Cons.IH[of pl "partDecoded part" "partWarnings part"]
      show ?thesis using Some HtmlPart by (simp add: scanParts_step del: scanParts.simps(3))
    next
      case OtherPart
      with Some Cons.IH[of pl h con] show ?thesis by (simp add: scanParts_step del: scanParts.simps(3))
    qed
  qed
qed

lemma multipartBranch_console:
  "fst (multipartBranch host cs body con) = fst (multipartBranch host cs body [])"
proof (cases "RegExp_new host (boundaryRegexSource (interpolate (element cs 0)))")
  case (Inl e)
  then show ?thesis by (simp add: multipartBranch_def)
next
  case re: (Inr re)
  show ?thesis
  proof (cases "split re body")
    case (Inl e)
    with re show ?thesis by (simp add: multipartBranch_def)
  next
    case (Inr parts)
    obtain r c where r: "scanParts parts [] [] [] = (r, c)"
      by (cases "scanParts parts [] [] []") auto
    with scanParts_console[of parts "[]" "[]" con]
    have "scanParts parts [] [] con = (r, con @ c)" by simp
    with r re Inr show ?thesis by (simp add: multipartBranch_def split: sum.splits prod.splits)
  qed
qed

lemma extractEmailBody_withinLimits:
  assumes "withinLimits host raw"
    and "multipartInput raw = Some (cs, body)"
    and "parsePattern (boundaryRegexSource (interpolate (element cs 0))) = Parsed r"
  shows "extractEmailBody host raw con = extractEmailBody noHost raw con"
  using assms
  by (simp add: extractEmailBody_multipart withinLimits_def multipartBranch_def RegExp_new_def
        split_def noHost_def)

lemma singlePartBranch_console:
  "fst (singlePartBranch hs body con) = fst (singlePartBranch hs body [])"
proof -
  obtain te where te: "lowerCapture (matchStr (compile flags_im transferEncodingPattern) hs) = Inr te"
    using lowerCapture_transferEncoding by blast
  obtain d c where d: "decodeContent body (Some te) [] = (d, c)"
    by (cases "decodeContent body (Some te) []") auto
  with decodeContent_console[of body "Some te" con]
  have "decodeContent body (Some te) con = (d, con @ c)" by simp
  with d te show ?thesis by (simp add: singlePartBranch_def)
qed


section \<open>Errors\<close>

lemma RegExp_new_throws:
  "RegExp_new host src = Inl e \<Longrightarrow> e = SyntaxError \<or> refuses host src = Some e"
  by (auto simp: RegExp_new_def split: parsed.splits option.splits)

lemma split_throws: "split re s = Inl e \<longleftrightarrow> givesUp re s = Some e"
  by (simp add: split_def split: option.splits)

text \<open>
  The loop throws exactly when it reaches an undefined part: the array has an undefined
  element, and no element before it is a \<open>text/plain\<close> part (at which the loop would end).
\<close>

lemma undefined_first:
  "\<exists>pre post. None # parts = pre @ None # post
     \<and> (\<forall>q \<in> set pre. \<exists>t. q = Some t \<and> partKind t \<noteq> PlainPart)"
  by (rule exI[of _ "[]"]) simp

lemma undefined_later:
  "(\<exists>pre post. Some p # parts = pre @ None # post
       \<and> (\<forall>q \<in> set pre. \<exists>t. q = Some t \<and> partKind t \<noteq> PlainPart))
   \<longleftrightarrow> partKind p \<noteq> PlainPart
        \<and> (\<exists>pre post. parts = pre @ None # post
              \<and> (\<forall>q \<in> set pre. \<exists>t. q = Some t \<and> partKind t \<noteq> PlainPart))"
proof
  assume "\<exists>pre post. Some p # parts = pre @ None # post
            \<and> (\<forall>q \<in> set pre. \<exists>t. q = Some t \<and> partKind t \<noteq> PlainPart)"
  then obtain pre post where d: "Some p # parts = pre @ None # post"
    and k: "\<forall>q \<in> set pre. \<exists>t. q = Some t \<and> partKind t \<noteq> PlainPart" by blast
  from d obtain pre' where pre: "pre = Some p # pre'" by (cases pre) auto
  with d have "parts = pre' @ None # post" by simp
  moreover from k pre have "partKind p \<noteq> PlainPart"
    and "\<forall>q \<in> set pre'. \<exists>t. q = Some t \<and> partKind t \<noteq> PlainPart" by auto
  ultimately show "partKind p \<noteq> PlainPart
        \<and> (\<exists>pre post. parts = pre @ None # post
              \<and> (\<forall>q \<in> set pre. \<exists>t. q = Some t \<and> partKind t \<noteq> PlainPart))" by blast
next
  assume "partKind p \<noteq> PlainPart
        \<and> (\<exists>pre post. parts = pre @ None # post
              \<and> (\<forall>q \<in> set pre. \<exists>t. q = Some t \<and> partKind t \<noteq> PlainPart))"
  then obtain pre post where np: "partKind p \<noteq> PlainPart" and d: "parts = pre @ None # post"
    and k: "\<forall>q \<in> set pre. \<exists>t. q = Some t \<and> partKind t \<noteq> PlainPart" by blast
  from d have "Some p # parts = (Some p # pre) @ None # post" by simp
  moreover from np k have "\<forall>q \<in> set (Some p # pre). \<exists>t. q = Some t \<and> partKind t \<noteq> PlainPart"
    by simp
  ultimately show "\<exists>pre post. Some p # parts = pre @ None # post
            \<and> (\<forall>q \<in> set pre. \<exists>t. q = Some t \<and> partKind t \<noteq> PlainPart)" by blast
qed

lemma scanParts_throws_iff:
  "fst (scanParts parts pl h con) = Inl e \<longleftrightarrow>
     e = TypeError
     \<and> (\<exists>pre post. parts = pre @ None # post
           \<and> (\<forall>q \<in> set pre. \<exists>t. q = Some t \<and> partKind t \<noteq> PlainPart))"
proof (induction parts arbitrary: pl h con)
  case Nil
  then show ?case by simp
next
  case (Cons a parts)
  show ?case
  proof (cases a)
    case None
    have "fst (scanParts (None # parts) pl h con) = Inl e \<longleftrightarrow> e = TypeError" by auto
    with undefined_first[of parts] show ?thesis unfolding None by blast
  next
    case (Some p)
    note later = undefined_later[of p parts]
    show ?thesis
    proof (cases "partKind p")
      case Skipped
      then have "scanParts (Some p # parts) pl h con = scanParts parts pl h con"
        by (simp add: scanParts_step del: scanParts.simps(3))
      with Cons.IH[of pl h con] later Skipped show ?thesis unfolding Some by simp
    next
      case PlainPart
      then have "scanParts (Some p # parts) pl h con = (Inr (partDecoded p, h), con @ partWarnings p)"
        by (simp add: scanParts_step del: scanParts.simps(3))
      with later PlainPart show ?thesis unfolding Some by simp
    next
      case HtmlPart
      then have "scanParts (Some p # parts) pl h con
                   = scanParts parts pl (partDecoded p) (con @ partWarnings p)"
        by (simp add: scanParts_step del: scanParts.simps(3))
      with Cons.IH[of pl "partDecoded p" "con @ partWarnings p"] later HtmlPart
      show ?thesis unfolding Some by simp
    next
      case OtherPart
      then have "scanParts (Some p # parts) pl h con = scanParts parts pl h con"
        by (simp add: scanParts_step del: scanParts.simps(3))
      with Cons.IH[of pl h con] later OtherPart show ?thesis unfolding Some by simp
    qed
  qed
qed

lemma multipartBranch_throws_iff:
  "fst (multipartBranch host cs body con) = Inl e \<longleftrightarrow>
     RegExp_new host (boundaryRegexSource (interpolate (element cs 0))) = Inl e
     \<or> (\<exists>boundaryRegex.
           RegExp_new host (boundaryRegexSource (interpolate (element cs 0))) = Inr boundaryRegex
           \<and> (split boundaryRegex body = Inl e
              \<or> (e = TypeError
                  \<and> (\<exists>pre post. split boundaryRegex body = Inr (pre @ None # post)
                        \<and> (\<forall>q \<in> set pre. \<exists>t. q = Some t \<and> partKind t \<noteq> PlainPart)))))"
proof (cases "RegExp_new host (boundaryRegexSource (interpolate (element cs 0)))")
  case (Inl e')
  then show ?thesis by (simp add: multipartBranch_def)
next
  case re: (Inr re)
  show ?thesis
  proof (cases "split re body")
    case (Inl e')
    with re show ?thesis by (simp add: multipartBranch_def)
  next
    case (Inr parts)
    have "fst (multipartBranch host cs body con) = Inl e \<longleftrightarrow> fst (scanParts parts [] [] con) = Inl e"
      using re Inr by (simp add: multipartBranch_def split: prod.splits sum.splits)
    with re Inr show ?thesis by (simp add: scanParts_throws_iff)
  qed
qed

text \<open>
  Claim C1, as amended. The call returns a string or throws. It throws the error \<open>e\<close>
  exactly when it is in the multipart branch and one of three things happens there:
  \<open>new RegExp\<close> throws \<open>e\<close> for the pattern built from the boundary (SyntaxError for a
  pattern that is not a valid regular expression, or the error of an engine that refuses the
  pattern); \<open>split\<close> throws \<open>e\<close> (the engine abandons the run of that expression on the
  body); or \<open>e\<close> is TypeError and the array of \<open>split\<close> has an undefined element, the
  capture of a group of the boundary that took no part in a match, with no \<open>text/plain\<close>
  part before it (\<open>part.trim()\<close> throws). In every other case it returns a string.
\<close>

theorem extractEmailBody_outcomes:
  "fst (extractEmailBody host rawEmailContent con) = Inl e \<longleftrightarrow>
     (\<exists>cs body. multipartInput rawEmailContent = Some (cs, body)
        \<and> (RegExp_new host (boundaryRegexSource (interpolate (element cs 0))) = Inl e
           \<or> (\<exists>boundaryRegex.
                 RegExp_new host (boundaryRegexSource (interpolate (element cs 0))) = Inr boundaryRegex
                 \<and> (split boundaryRegex body = Inl e
                    \<or> (e = TypeError
                        \<and> (\<exists>pre post. split boundaryRegex body = Inr (pre @ None # post)
                              \<and> (\<forall>q \<in> set pre. \<exists>t. q = Some t \<and> partKind t \<noteq> PlainPart)))))))"
proof (cases "multipartInput rawEmailContent")
  case None
  from extractEmailBody_not_multipart[OF None, of host con]
  obtain s con' where "extractEmailBody host rawEmailContent con = (Inr s, con')" by blast
  with None show ?thesis by simp
next
  case (Some a)
  obtain cs body where a: "a = (cs, body)" by (cases a) auto
  with Some have mp: "multipartInput rawEmailContent = Some (cs, body)" by simp
  show ?thesis
    by (simp add: mp extractEmailBody_multipart[OF mp] multipartBranch_throws_iff)
qed

text \<open>
  An instance: in \<open>optionalGroupMessage\<close> the delimiter comes first, its
  undefined capture is the second element of the array, after an empty segment, and the
  call throws TypeError.
\<close>

theorem extractEmailBody_outcomes_witness:
  "fst (extractEmailBody noHost optionalGroupMessage []) = Inl TypeError"
proof -
  define body where "body = drop 49 optionalGroupMessage"
  define re where
    "re = (case RegExp_new noHost (boundaryRegexSource (asc ''(x)?y'')) of
             Inr M \<Rightarrow> M | Inl e \<Rightarrow> \<lparr>matcher = (\<lambda>a b. None), givesUp = (\<lambda>s. None)\<rparr>)"
  have mp: "multipartInput optionalGroupMessage = Some ([Some (asc ''(x)?y'')], body)"
    unfolding body_def by code_simp
  have "case RegExp_new noHost (boundaryRegexSource (asc ''(x)?y'')) of Inr M \<Rightarrow> True | Inl e \<Rightarrow> False"
    by code_simp
  then have re: "RegExp_new noHost (boundaryRegexSource (interpolate (element [Some (asc ''(x)?y'')] 0))) = Inr re"
    by (simp add: re_def interpolate_def element_def split: sum.splits)
  have sp: "split re body
              = Inr ([Some []] @ None # [Some (asc ''Content-Type: text/plain'' @ CRLF @ CRLF @ asc ''hi'')])"
    unfolding re_def body_def by code_simp
  have pre: "\<forall>q \<in> set [Some []]. \<exists>t. q = Some t \<and> partKind t \<noteq> PlainPart"
    by (simp add: partKind_def trim_Nil)
  from mp re sp pre
  have "\<exists>cs body. multipartInput optionalGroupMessage = Some (cs, body)
        \<and> (RegExp_new noHost (boundaryRegexSource (interpolate (element cs 0))) = Inl TypeError
           \<or> (\<exists>boundaryRegex.
                 RegExp_new noHost (boundaryRegexSource (interpolate (element cs 0))) = Inr boundaryRegex
                 \<and> (split boundaryRegex body = Inl TypeError
                    \<or> (TypeError = TypeError
                        \<and> (\<exists>pre post. split boundaryRegex body = Inr (pre @ None # post)
                              \<and> (\<forall>q \<in> set pre. \<exists>t. q = Some t \<and> partKind t \<noteq> PlainPart))))))"
    by blast
  then show ?thesis
    by (simp only: extractEmailBody_outcomes [of noHost optionalGroupMessage "[]" TypeError])
qed

text \<open>
  In \<open>optionalGroupLastMessage\<close> the array has the same undefined element, after the
  \<open>text/plain\<close> part: the loop ends at the part and the call returns.
\<close>

lemma undefined_part_not_reached:
  "fst (extractEmailBody noHost optionalGroupLastMessage []) = Inr (asc ''hi'')"
  by code_simp

text \<open>
  An engine that abandons the run of the expression built from the boundary: the call
  throws its error, whatever the parts hold. The instance is \<open>plainFirstMessage\<close>, from
  which the call returns when the run reaches its end.
\<close>

lemma engine_limit_throws:
  assumes "multipartInput rawEmailContent = Some (cs, body)"
    and "RegExp_new host (boundaryRegexSource (interpolate (element cs 0))) = Inr boundaryRegex"
    and "givesUp boundaryRegex body = Some e"
  shows "fst (extractEmailBody host rawEmailContent con) = Inl e"
  using assms
  by (simp add: extractEmailBody_multipart multipartBranch_def split_def)

lemma engine_limit_instance:
  "fst (extractEmailBody (noHost\<lparr>abandons := (\<lambda>src s. Some RangeError)\<rparr>) plainFirstMessage [])
     = Inl RangeError"
  by code_simp

text \<open>
  Claim C1 as stated fails: the boundary \<open>(\<close> is made of characters that are neither white
  space nor quotes, and the call throws SyntaxError.
\<close>

theorem extractEmailBody_throws_counterexample:
  "fst (extractEmailBody noHost
         (asc ''Content-Type: multipart/mixed; boundary=('' @ CRLF @ CRLF @ asc ''x'') [])
     = Inl SyntaxError"
  by code_simp


section \<open>Determinism\<close>

text \<open>
  Claim C7. The only state outside its argument that \<open>extractEmailBody\<close> touches is the
  console, which it writes and never reads: the result is the same whatever the console
  holds, so two calls on the same input give the same result.
\<close>

theorem extractEmailBody_deterministic:
  "fst (extractEmailBody host rawEmailContent con1) = fst (extractEmailBody host rawEmailContent con2)"
proof -
  have "fst (extractEmailBody host rawEmailContent con) = fst (extractEmailBody host rawEmailContent [])" for con
    using multipartBranch_console[of host _ _ con] singlePartBranch_console[of _ _ con]
    by (simp add: extractEmailBody_def Let_def split: option.splits)
  from this[of con1] this[of con2] show ?thesis by simp
qed


theorem extractEmailBody_deterministic_witness:
  "fst (extractEmailBody noHost (asc ''Content-Transfer-Encoding: base64'' @ CRLF @ CRLF @ asc ''a'') [])
     = fst (extractEmailBody noHost (asc ''Content-Transfer-Encoding: base64'' @ CRLF @ CRLF @ asc ''a'')
              [Warn (asc ''Base64 decoding failed:'') InvalidCharacterError])"
  by (rule extractEmailBody_deterministic)


section \<open>The order of the parts\<close>

lemma scanParts_pass:
  "\<forall>q \<in> set pre. \<exists>t. q = Some t \<and> (partKind t = Skipped \<or> partKind t = OtherPart) \<Longrightarrow>
   scanParts (pre @ rest) pl h con = scanParts rest pl h con"
proof (induction pre)
  case Nil
  then show ?case by simp
next
  case (Cons a pre)
  from Cons.prems obtain t where t: "a = Some t" "partKind t = Skipped \<or> partKind t = OtherPart"
    by auto
  from Cons.prems have "\<forall>q \<in> set pre. \<exists>t. q = Some t \<and> (partKind t = Skipped \<or> partKind t = OtherPart)"
    by simp
  from Cons.IH[OF this] t show ?case
    by (auto simp add: scanParts_step simp del: scanParts.simps(3))
qed

lemma scanParts_no_plain:
  "\<forall>q \<in> set pre. \<exists>t. q = Some t \<and> partKind t \<noteq> PlainPart \<Longrightarrow>
   \<exists>h' con'. scanParts (pre @ rest) pl h con = scanParts rest pl h' con'"
proof (induction pre arbitrary: h con)
  case Nil
  then show ?case by auto
next
  case (Cons a pre)
  from Cons.prems obtain t where t: "a = Some t" "partKind t \<noteq> PlainPart"
    by auto
  from Cons.prems have p: "\<forall>q \<in> set pre. \<exists>t. q = Some t \<and> partKind t \<noteq> PlainPart"
    by simp
  show ?case
  proof (cases "partKind t")
    case Skipped
    with Cons.IH[OF p, of h con] t show ?thesis
      by (simp add: scanParts_step del: scanParts.simps(3))
  next
    case PlainPart
    with t show ?thesis by simp
  next
    case HtmlPart
    with Cons.IH[OF p, of "partDecoded t" "con @ partWarnings t"] t show ?thesis
      by (simp add: scanParts_step del: scanParts.simps(3))
  next
    case OtherPart
    with Cons.IH[OF p, of h con] t show ?thesis
      by (simp add: scanParts_step del: scanParts.simps(3))
  qed
qed






text \<open>
  Claim C9. In the multipart branch, when no part is a \<open>text/plain\<close> part, the decoded
  body of the last \<open>text/html\<close> part is the HTML candidate when the loop ends, whatever the
  \<open>text/html\<close> parts before it held; the result is resolved from it.
\<close>

theorem last_html_part_wins:
  assumes "multipartInput rawEmailContent = Some (cs, body)"
    and "RegExp_new host (boundaryRegexSource (interpolate (element cs 0))) = Inr boundaryRegex"
    and "split boundaryRegex body = Inr (pre @ Some htmlPart # post)"
    and "\<forall>q \<in> set pre. \<exists>t. q = Some t \<and> partKind t \<noteq> PlainPart"
    and "partKind htmlPart = HtmlPart"
    and "\<forall>q \<in> set post. \<exists>t. q = Some t \<and> (partKind t = Skipped \<or> partKind t = OtherPart)"
  shows "fst (scanParts (pre @ Some htmlPart # post) [] [] con) = Inr ([], partDecoded htmlPart)
       \<and> fst (extractEmailBody host rawEmailContent con) = Inr (resolve [] (partDecoded htmlPart))"
proof -
  from scanParts_no_plain[OF assms(4), of "Some htmlPart # post" "[]" "[]" con]
  obtain h' con' where a: "scanParts (pre @ Some htmlPart # post) [] [] con
                            = scanParts (Some htmlPart # post) [] h' con'" by blast
  have b: "scanParts (Some htmlPart # post) [] h' con'
            = scanParts post [] (partDecoded htmlPart) (con' @ partWarnings htmlPart)"
    using assms(5) by (simp add: scanParts_step del: scanParts.simps(3))
  have c: "scanParts post [] (partDecoded htmlPart) (con' @ partWarnings htmlPart)
            = (Inr ([], partDecoded htmlPart), con' @ partWarnings htmlPart)"
    using scanParts_pass[OF assms(6), of "[]" "[]" "partDecoded htmlPart" "con' @ partWarnings htmlPart"]
    by simp
  from a b c have d: "scanParts (pre @ Some htmlPart # post) [] [] con
            = (Inr ([], partDecoded htmlPart), con' @ partWarnings htmlPart)" by simp
  with assms(1,2,3) show ?thesis
    by (simp add: extractEmailBody_multipart multipartBranch_def)
qed

theorem last_html_part_wins_witness:
  "fst (extractEmailBody noHost twoHtmlMessage []) = Inr (asc ''second'')"
proof -
  define body where "body = drop 52 twoHtmlMessage"
  define re where
    "re = (case RegExp_new noHost (boundaryRegexSource (asc ''b1'')) of
             Inr M \<Rightarrow> M | Inl e \<Rightarrow> \<lparr>matcher = (\<lambda>a b. None), givesUp = (\<lambda>s. None)\<rparr>)"
  define first where
    "first = asc ''Content-Type: text/html'' @ CRLF @ CRLF @ asc ''<p>first</p>''"
  define second where
    "second = asc ''Content-Type: text/html'' @ CRLF @ CRLF @ asc ''<p>second</p>''"
  have mp: "multipartInput twoHtmlMessage = Some ([Some (asc ''b1'')], body)"
    unfolding body_def by code_simp
  have "case RegExp_new noHost (boundaryRegexSource (asc ''b1'')) of Inr M \<Rightarrow> True | Inl e \<Rightarrow> False"
    by code_simp
  then have re: "RegExp_new noHost (boundaryRegexSource (interpolate (element [Some (asc ''b1'')] 0))) = Inr re"
    by (simp add: re_def interpolate_def element_def split: sum.splits)
  have sp: "split re body = Inr ([Some [], Some first] @ Some second # [Some []])"
    unfolding re_def body_def first_def second_def by code_simp
  have k1: "partKind first = HtmlPart"
    unfolding first_def by code_simp
  have pre: "\<forall>q \<in> set [Some [], Some first]. \<exists>t. q = Some t \<and> partKind t \<noteq> PlainPart"
    by (simp add: k1) (simp add: partKind_def trim_Nil)
  have kind: "partKind second = HtmlPart"
    unfolding second_def by code_simp
  have post: "\<forall>q \<in> set [Some []]. \<exists>t. q = Some t \<and> (partKind t = Skipped \<or> partKind t = OtherPart)"
    by (simp add: partKind_def trim_Nil)
  have dec: "resolve [] (partDecoded second) = asc ''second''"
    unfolding second_def by code_simp
  show ?thesis
    using last_html_part_wins [OF mp re sp pre kind post, of "[]"] by (simp only: dec)
qed


section \<open>Transfer encodings\<close>

lemma base64Value_None: "base64Value c = None \<longleftrightarrow> \<not> isBase64Char c"
  by (auto simp: base64Value_def isBase64Char_def)

lemma sextets_None: "sextets d = None \<longleftrightarrow> \<not> list_all isBase64Char d"
proof (induction d)
  case Nil
  then show ?case by simp
next
  case (Cons a d)
  show ?case
  proof (cases "base64Value a")
    case None
    then show ?thesis using base64Value_None[of a] by simp
  next
    case (Some v)
    then have "isBase64Char a" using base64Value_None[of a] by simp
    with Some Cons.IH show ?thesis by (cases "sextets d") auto
  qed
qed

lemma atob_invalid:
  "atob d = Inl InvalidCharacterError \<longleftrightarrow> \<not> validBase64 (filter (\<lambda>c. \<not> isAsciiWhitespace c) d)"
proof -
  define d1 where "d1 = filter (\<lambda>c. \<not> isAsciiWhitespace c) d"
  define d2 where "d2 = (if length d1 mod 4 = 0 then stripPadding d1 else d1)"
  have a: "atob d = (if length d2 mod 4 = 1 then Inl InvalidCharacterError
                     else case sextets d2 of None \<Rightarrow> Inl InvalidCharacterError
                          | Some vs \<Rightarrow> Inr (decodeSextets vs))"
    by (simp add: atob_def d1_def d2_def Let_def)
  have v: "validBase64 d1 = (length d2 mod 4 \<noteq> 1 \<and> list_all isBase64Char d2)"
    by (simp add: validBase64_def d2_def Let_def)
  show ?thesis
    unfolding d1_def[symmetric] a v
    using sextets_None[of d2] by (auto split: option.splits)
qed

lemma atob_error: "atob d = Inl e \<Longrightarrow> e = InvalidCharacterError"
  by (auto simp: atob_def Let_def split: option.splits if_splits)

lemma ascii_whitespace: "isAsciiWhitespace c \<Longrightarrow> isWhiteSpace c"
  by (auto simp: isAsciiWhitespace_def isWhiteSpace_def)

lemma filter_whitespace:
  "filter (\<lambda>c. \<not> isAsciiWhitespace c) (filter (\<lambda>c. \<not> isWhiteSpace c) t) = filter (\<lambda>c. \<not> isWhiteSpace c) t"
  by (induction t) (auto dest: ascii_whitespace)

lemma whiteSpace_matcher:
  "compile noFlags whiteSpace pre xs =
     (case xs of [] \<Rightarrow> None | c # rest \<Rightarrow> if isWhiteSpace c then Some (1, []) else None)"
  by (auto simp: compile_def whiteSpace_def noFlags_def charSetMatches_def split: list.splits)

lemma replace_whiteSpace_aux:
  "replaceAll (compile noFlags whiteSpace) (\<lambda>match cs. []) pre xs 0 = filter (\<lambda>c. \<not> isWhiteSpace c) xs"
  by (induction xs arbitrary: pre) (auto simp: whiteSpace_matcher)

lemma replace_whiteSpace:
  "replace (compile noFlags whiteSpace) (\<lambda>match cs. []) t = filter (\<lambda>c. \<not> isWhiteSpace c) t"
  by (simp add: replace_def replace_whiteSpace_aux)

lemma toLowerCase_base64: "toLowerCase (asc ''base64'') = asc ''base64''"
  by code_simp

text \<open>
  Claim C6. For a text that is not valid base64 once its white space is removed,
  \<open>decodeContent\<close> with the encoding \<open>base64\<close> returns the text as it was given; the
  error of \<open>atob\<close> is caught and logged, and does not reach the caller.
\<close>

theorem decodeContent_invalid_base64:
  assumes "\<not> validBase64 (filter (\<lambda>c. \<not> isWhiteSpace c) encodedText)"
  shows "decodeContent encodedText (Some (asc ''base64'')) con
           = (encodedText, con @ [Warn (asc ''Base64 decoding failed:'') InvalidCharacterError])"
proof -
  have ne: "encodedText \<noteq> []"
    using assms by (auto simp: validBase64_def stripPadding_def endsWith_def asc_def)
  have "atob (filter (\<lambda>c. \<not> isWhiteSpace c) encodedText) = Inl InvalidCharacterError"
    using assms by (simp only: atob_invalid filter_whitespace) simp
  moreover have "asc ''base64'' \<noteq> []" by (simp add: asc_def)
  ultimately show ?thesis
    using ne by (simp add: decodeContent_def toLowerCase_base64 replace_whiteSpace)
qed

theorem decodeContent_invalid_base64_witness:
  "decodeContent (asc ''aGVs bG8=!'') (Some (asc ''base64'')) []
     = (asc ''aGVs bG8=!'', [Warn (asc ''Base64 decoding failed:'') InvalidCharacterError])"
proof -
  have h: "\<not> validBase64 (filter (\<lambda>c. \<not> isWhiteSpace c) (asc ''aGVs bG8=!''))"
    by code_simp
  show ?thesis
    using decodeContent_invalid_base64 [OF h, of "[]"] by simp
qed

lemma lit_noFlags: "charSetMatches noFlags False [Single a] c = (c = a)"
  by (simp add: charSetMatches_def noFlags_def)

lemma softBreak_matcher:
  "compile noFlags softBreakPattern pre [] = None"
  "compile noFlags softBreakPattern pre [a] = None"
  "compile noFlags softBreakPattern pre [a, b] = None"
  "compile noFlags softBreakPattern pre (a # b # c # rest) =
     (if a = cu CHR ''='' \<and> b = 0x0D \<and> c = 0x0A then Some (3, []) else None)"
  by (auto simp: compile_def softBreakPattern_def lit_def lit_noFlags)

lemma hexDigit_noFlags:
  "charSetMatches noFlags False [Range 48 57, Range 65 70, Range 97 102] c = isHexDigit c"
  by (auto simp: charSetMatches_def noFlags_def isHexDigit_def isDigit_def)

lemma hexEscape_matcher:
  "compile noFlags hexEscapePattern pre [] = None"
  "compile noFlags hexEscapePattern pre [a] = None"
  "compile noFlags hexEscapePattern pre [a, b] = None"
  "compile noFlags hexEscapePattern pre (a # b # c # rest) =
     (if a = cu CHR ''='' \<and> isHexDigit b \<and> isHexDigit c then Some (3, [Some [b, c]]) else None)"
  by (auto simp: compile_def hexEscapePattern_def hexDigitClass_def lit_def lit_noFlags
        hexDigit_noFlags Let_def)

lemma replace_softBreaks_aux:
  "replaceAll (compile noFlags softBreakPattern) (\<lambda>match cs. []) pre xs 0 = removeSoftBreaks xs"
proof (induction xs arbitrary: pre rule: removeSoftBreaks.induct)
  case (1 a b c rest)
  show ?case
  proof (cases "a = cu CHR ''='' \<and> b = 0x0D \<and> c = 0x0A")
    case True
    with "1.IH"(1)[of "((pre @ [a]) @ [b]) @ [c]"] show ?thesis
      by (simp add: softBreak_matcher)
  next
    case False
    with "1.IH"(2)[of "pre @ [a]"] show ?thesis
      by (auto simp add: softBreak_matcher)
  qed
qed (simp_all add: softBreak_matcher)

lemma parseInt16_pair:
  "isHexDigit b \<Longrightarrow> isHexDigit c \<Longrightarrow> parseInt16 (Some [b, c]) = Some (16 * hexValue b + hexValue c)"
  by (simp add: parseInt16_def)

lemma replace_hexEscapes_aux:
  "replaceAll (compile noFlags hexEscapePattern)
     (\<lambda>match cs. fromCharCode (parseInt16 (element cs 0))) pre xs 0 = decodeEscapes xs"
proof (induction xs arbitrary: pre rule: decodeEscapes.induct)
  case (1 a b c rest)
  show ?case
  proof (cases "a = cu CHR ''='' \<and> isHexDigit b \<and> isHexDigit c")
    case True
    with "1.IH"(1)[of "((pre @ [a]) @ [b]) @ [c]"] show ?thesis
      by (simp add: hexEscape_matcher element_def parseInt16_pair fromCharCode_def)
  next
    case False
    with "1.IH"(2)[of "pre @ [a]"] show ?thesis
      by (auto simp add: hexEscape_matcher)
  qed
qed (simp_all add: hexEscape_matcher)

lemma toLowerCase_qp: "toLowerCase (asc ''quoted-printable'') = asc ''quoted-printable''"
  by code_simp

lemma decodeContent_quoted_printable:
  "decodeContent encodedText (Some (asc ''quoted-printable'')) con
     = (decodeEscapes (removeSoftBreaks encodedText), con)"
proof (cases "encodedText = []")
  case True
  then show ?thesis by (simp add: decodeContent_def)
next
  case False
  have "asc ''quoted-printable'' \<noteq> asc ''base64''" by (simp add: asc_def)
  moreover have "asc ''quoted-printable'' \<noteq> []" by (simp add: asc_def)
  ultimately show ?thesis
    using False
    by (simp add: decodeContent_def toLowerCase_qp replace_def
          replace_softBreaks_aux replace_hexEscapes_aux)
qed


text \<open>
  Claim C2, as amended. For the single-part message with
  \<open>Content-Transfer-Encoding: quoted-printable\<close> and the body \<open>Caf=C3=A9\<close> the result is the
  five characters \<open>C\<close>, \<open>a\<close>, \<open>f\<close>, U+00C3, U+00A9: each escape gives one character,
  and no character set is applied to join them. In general \<open>decodeContent\<close> removes the
  soft line breaks and then replaces every \<open>=XX\<close> by the character with that code.
\<close>

theorem quoted_printable_decoding:
  "fst (extractEmailBody host cafeMessage con) = Inr (asc ''Caf'' @ [0xC3, 0xA9])
   \<and> decodeContent encodedText (Some (asc ''quoted-printable'')) con
       = (decodeEscapes (removeSoftBreaks encodedText), con)"
proof
  show "fst (extractEmailBody host cafeMessage con) = Inr (asc ''Caf'' @ [0xC3, 0xA9])"
    by code_simp
  show "decodeContent encodedText (Some (asc ''quoted-printable'')) con
          = (decodeEscapes (removeSoftBreaks encodedText), con)"
    by (rule decodeContent_quoted_printable)
qed

theorem quoted_printable_decoding_witness:
  "decodeContent (asc ''a=3Db='' @ CRLF @ asc ''c=zz'') (Some (asc ''quoted-printable'')) []
     = (asc ''a=bc=zz'', [])"
proof -
  have "decodeEscapes (removeSoftBreaks (asc ''a=3Db='' @ CRLF @ asc ''c=zz'')) = asc ''a=bc=zz''"
    by code_simp
  then show ?thesis
    using quoted_printable_decoding [of noHost "[]" "asc ''a=3Db='' @ CRLF @ asc ''c=zz''"]
    by simp
qed

text \<open>
  Claim C2 as stated fails: the result is not the four characters \<open>C\<close>, \<open>a\<close>, \<open>f\<close>,
  U+00E9.
\<close>

theorem quoted_printable_cafe_counterexample:
  "fst (extractEmailBody noHost cafeMessage []) \<noteq> Inr (asc ''Caf'' @ [0xE9])"
  by code_simp


section \<open>HTML\<close>

lemma tagsToSpaces_inTag: "tagsToSpaces True xs = tagsToSpaces False (afterTag xs)"
  by (induction xs) (auto simp: afterTag_def)

lemma afterTag_suffix: "\<exists>u. xs = u @ afterTag xs"
proof (cases "dropWhile (\<lambda>c. c \<noteq> 62) xs")
  case Nil
  have "afterTag xs = []" by (simp add: afterTag_def Nil)
  then show ?thesis by simp
next
  case (Cons g rest)
  have a: "afterTag xs = rest" by (simp add: afterTag_def Cons)
  have "xs = takeWhile (\<lambda>c. c \<noteq> 62) xs @ dropWhile (\<lambda>c. c \<noteq> 62) xs"
    by simp
  then have "xs = (takeWhile (\<lambda>c. c \<noteq> 62) xs @ [g]) @ afterTag xs"
    by (simp only: Cons a append_assoc append_Cons append_Nil)
  then show ?thesis by (rule exI)
qed

lemma afterTag_drop: "drop (length xs - length (afterTag xs)) xs = afterTag xs"
proof -
  from afterTag_suffix obtain u where u: "xs = u @ afterTag xs" by blast
  then have "length xs - length (afterTag xs) = length u"
    by (metis add_diff_cancel_right' length_append)
  with u show ?thesis by (metis append_eq_conv_conj)
qed

lemma afterTag_length: "length (afterTag xs) \<le> length xs"
  using afterTag_suffix[of xs] by (metis le_add2 length_append)

lemma notGt_m: "charSetMatches flags_m True [Single 62] c = (c \<noteq> 62)"
  by (simp add: charSetMatches_def flags_m_def)

lemma notGt_m_fun: "charSetMatches flags_m True [Single 62] = (\<lambda>c. c \<noteq> 62)"
  by (rule ext) (rule notGt_m)

lemma tag_first:
  "\<exists>p' more. m flags_m (Seq (Repeat 0 None True (Chars True [Single 62]))
                              (Repeat 0 (Some (Suc 0)) True (lit 62))) (p, xs, cs)
       = (p', afterTag xs, cs) # more"
proof -
  from star_first[of flags_m True "[Single 62]" p xs cs] obtain p1 more1 where
    s: "m flags_m (Repeat 0 None True (Chars True [Single 62])) (p, xs, cs)
          = (p1, dropWhile (\<lambda>c. c \<noteq> 62) xs, cs) # more1"
    by (auto simp: notGt_m_fun)
  show ?thesis
  proof (cases "dropWhile (\<lambda>c. c \<noteq> 62) xs")
    case Nil
    have a: "afterTag xs = []" by (simp add: afterTag_def Nil)
    from s show ?thesis
      unfolding a Nil by (simp add: opt_lit del: m.simps(6))
  next
    case (Cons g rest)
    have a: "afterTag xs = rest" by (simp add: afterTag_def Cons)
    have "g = 62" using hd_dropWhile[of "\<lambda>c. c \<noteq> 62" xs] Cons by auto
    with s show ?thesis
      unfolding a Cons by (simp add: opt_lit charSetMatches_def flags_m_def del: m.simps(6))
  qed
qed

lemma tag_matcher:
  "compile flags_m tagPattern pre [] = None"
  "compile flags_m tagPattern pre (c # xs) =
     (if c = cu CHR ''<'' then Some (Suc (length xs - length (afterTag xs)), []) else None)"
proof -
  have t: "tagPattern = Seq (lit 60) (Seq (Repeat 0 None True (Chars True [Single 62]))
                                          (Repeat 0 (Some (Suc 0)) True (lit 62)))"
    by (simp add: tagPattern_def)
  have g: "groupsOf tagPattern = []"
    by (simp add: tagPattern_def lit_def)
  show "compile flags_m tagPattern pre [] = None"
    unfolding compile_def g unfolding t by (simp only: lit_then) simp
  show "compile flags_m tagPattern pre (c # xs) =
     (if c = cu CHR ''<'' then Some (Suc (length xs - length (afterTag xs)), []) else None)"
  proof (cases "c = 60")
    case True
    from tag_first[of "Some c" xs "[]"] obtain p' more where
      "m flags_m (Seq (Repeat 0 None True (Chars True [Single 62]))
                      (Repeat 0 (Some (Suc 0)) True (lit 62))) (Some c, xs, [])
         = (p', afterTag xs, []) # more" by blast
    moreover have "charSetMatches flags_m False [Single 60] c"
      using True by (simp add: charSetMatches_def flags_m_def)
    ultimately show ?thesis
      unfolding compile_def g unfolding t
      using True afterTag_length[of xs] by (simp only: lit_then) (simp add: Suc_diff_le)
  next
    case False
    then have "\<not> charSetMatches flags_m False [Single 60] c"
      by (simp add: charSetMatches_def flags_m_def)
    with False show ?thesis
      unfolding compile_def g unfolding t by (simp only: lit_then) simp
  qed
qed

lemma replaceAll_skip:
  "k \<le> length xs \<Longrightarrow> replaceAll M fn pre xs k = replaceAll M fn (pre @ take k xs) (drop k xs) 0"
proof (induction xs arbitrary: pre k)
  case Nil
  then show ?case by simp
next
  case (Cons c xs)
  show ?case
  proof (cases k)
    case 0
    then show ?thesis by simp
  next
    case (Suc j)
    with Cons.prems have "j \<le> length xs" by simp
    from Cons.IH[OF this, of "pre @ [c]"] Suc show ?thesis by simp
  qed
qed

lemma replace_tags_aux:
  "replaceAll (compile flags_m tagPattern) (\<lambda>match cs. asc '' '') pre xs 0 = tagsToSpaces False xs"
proof (induction "length xs" arbitrary: xs pre rule: less_induct)
  case less
  show ?case
  proof (cases xs)
    case Nil
    then show ?thesis by (simp add: tag_matcher)
  next
    case (Cons c r)
    show ?thesis
    proof (cases "c = cu CHR ''<''")
      case True
      have le: "length r - length (afterTag r) \<le> length r" by simp
      have sm: "length (afterTag r) < length xs"
        using afterTag_length[of r] Cons by simp
      have "replaceAll (compile flags_m tagPattern) (\<lambda>match cs. asc '' '') (pre @ [c]) r
              (length r - length (afterTag r))
            = replaceAll (compile flags_m tagPattern) (\<lambda>match cs. asc '' '')
                ((pre @ [c]) @ take (length r - length (afterTag r)) r) (afterTag r) 0"
        using replaceAll_skip[OF le] by (simp add: afterTag_drop)
      also have "\<dots> = tagsToSpaces False (afterTag r)"
        by (rule less[OF sm])
      finally show ?thesis
        using True Cons by (simp add: tag_matcher tagsToSpaces_inTag asc_def)
    next
      case False
      have "length r < length xs" using Cons by simp
      from less[OF this, of "pre @ [c]"] False Cons show ?thesis
        by (simp add: tag_matcher)
    qed
  qed
qed

lemma resolve_html:
  "resolve [] htmlBody = (if trim htmlBody = [] then [] else trim (tagsToSpaces False htmlBody))"
  by (simp add: resolve_def trim_Nil replace_def replace_tags_aux)


text \<open>
  Claim C4, as amended. For the multipart message whose only part is the \<open>text/html\<close> part
  \<open><p>Hi <b>there</b></p>\<close> the result is \<open>Hi  there\<close>, with two spaces between the
  words (in a runtime that reaches none of its limits on the message). In general, when there is no plain text, every tag of the HTML is replaced by one
  space, white space is not collapsed, and the result is trimmed.
\<close>

theorem html_only_message:
  assumes "withinLimits host htmlOnlyMessage"
  shows "extractEmailBody host htmlOnlyMessage con = (Inr (asc ''Hi  there''), con)
   \<and> resolve [] htmlBody = (if trim htmlBody = [] then [] else trim (tagsToSpaces False htmlBody))"
proof
  have "case multipartInput htmlOnlyMessage of
          None \<Rightarrow> False
        | Some (cs, body) \<Rightarrow>
            (case parsePattern (boundaryRegexSource (interpolate (element cs 0))) of
               Parsed r \<Rightarrow> True | Invalid \<Rightarrow> False | Beyond \<Rightarrow> False)"
    by code_simp
  then obtain cs body r where "multipartInput htmlOnlyMessage = Some (cs, body)"
    and "parsePattern (boundaryRegexSource (interpolate (element cs 0))) = Parsed r"
    by (auto split: option.splits parsed.splits)
  from extractEmailBody_withinLimits[OF assms this]
  have "extractEmailBody host htmlOnlyMessage con = extractEmailBody noHost htmlOnlyMessage con" .
  also have "\<dots> = (Inr (asc ''Hi  there''), con)"
    by code_simp
  finally show "extractEmailBody host htmlOnlyMessage con = (Inr (asc ''Hi  there''), con)" .
  show "resolve [] htmlBody = (if trim htmlBody = [] then [] else trim (tagsToSpaces False htmlBody))"
    by (rule resolve_html)
qed

theorem html_only_message_witness:
  "withinLimits noHost htmlOnlyMessage
   \<and> fst (extractEmailBody noHost htmlOnlyMessage []) = Inr (asc ''Hi  there'')"
proof -
  have w: "withinLimits noHost htmlOnlyMessage" by code_simp
  from html_only_message [OF w, of "[]"] w show ?thesis by simp
qed

text \<open>Claim C4 as stated fails: the result is not \<open>Hi there\<close> with a single space.\<close>

theorem html_only_message_counterexample:
  "fst (extractEmailBody noHost htmlOnlyMessage []) \<noteq> Inr (asc ''Hi there'')"
  by code_simp


section \<open>The multipart expression\<close>

lemma upper_of_lower: "isLower c \<Longrightarrow> isUpper (c - 0x20)"
  unfolding isLower_def isUpper_def by unat_arith

lemma lower_of_upper:
  assumes "isUpper c"
  shows "isLower (c + 0x20)"
proof -
  from assms have a: "65 \<le> unat c" "unat c \<le> 90"
    by (simp_all add: isUpper_def word_le_nat_alt)
  have "unat (c + 0x20) = (unat c + 32) mod 65536"
    by (simp add: unat_word_ariths)
  with a have "unat (c + 0x20) = unat c + 32" by simp
  with a show ?thesis by (simp add: isLower_def word_le_nat_alt)
qed

lemma letter_plain: "isUpper c \<or> isLower c \<Longrightarrow> c \<noteq> 0x22 \<and> \<not> isWhiteSpace c"
  unfolding isUpper_def isLower_def isWhiteSpace_def by unat_arith

lemma lit_im: "equalIgnoringCase c a \<Longrightarrow> charSetMatches flags_im False [Single a] c"
  by (auto simp: charSetMatches_def equalIgnoringCase_def flags_im_def)

lemma space_im: "isWhiteSpace c \<Longrightarrow> charSetMatches flags_im False [Escape Space] c"
  by (simp add: charSetMatches_def)

lemma subtype_im:
  "isSubtypeChar c \<Longrightarrow>
   charSetMatches flags_im False
     [Range 97 122, Range 65 90, Range 48 57, Single 46, Single 95, Single 45] c"
  by (auto simp: charSetMatches_def isSubtypeChar_def isLower_def isUpper_def isDigit_def)

lemma value_im:
  assumes "c \<noteq> 0x22" and "\<not> isWhiteSpace c"
  shows "charSetMatches flags_im True [Single 0x22, Escape Space] c"
proof -
  have u: "upperAscii c \<noteq> 0x22 \<and> \<not> isWhiteSpace (upperAscii c)"
    using assms upper_of_lower[of c] letter_plain[of "c - 0x20"] by (auto simp: upperAscii_def)
  have l: "lowerAscii c \<noteq> 0x22 \<and> \<not> isWhiteSpace (lowerAscii c)"
    using assms lower_of_upper[of c] letter_plain[of "c + 0x20"] by (auto simp: lowerAscii_def)
  from assms u l show ?thesis by (simp add: charSetMatches_def)
qed

lemma reaches_Seq: "reaches f r1 a b \<Longrightarrow> reaches f r2 b c \<Longrightarrow> reaches f (Seq r1 r2) a c"
  unfolding reaches_def by (simp, metis)

lemma reaches_Empty: "reaches f Empty a a"
  by (simp add: reaches_def)

lemma reaches_seqOf_Cons:
  "reaches f r a b \<Longrightarrow> reaches f (seqOf rs) b c \<Longrightarrow> reaches f (seqOf (r # rs)) a c"
proof (cases rs)
  case Nil
  assume "reaches f r a b" "reaches f (seqOf rs) b c"
  with Nil show ?thesis by (simp add: reaches_def)
next
  case (Cons r' rs')
  assume "reaches f r a b" "reaches f (seqOf rs) b c"
  with Cons show ?thesis by (simp add: reaches_Seq)
qed

lemma reaches_lits:
  "sameIgnoringCase w lits \<Longrightarrow> reaches flags_im (seqOf rs) (rest, cs) c \<Longrightarrow>
   reaches flags_im (seqOf (map lit lits @ rs)) (w @ rest, cs) c"
  unfolding sameIgnoringCase_def
proof (induction w lits rule: list_all2_induct)
  case Nil
  then show ?case by simp
next
  case (Cons x xs y ys)
  have "reaches flags_im (lit y) ((x # xs) @ rest, cs) (xs @ rest, cs)"
    using Cons.hyps(1) by (simp add: reaches_def lit_def lit_im)
  from reaches_seqOf_Cons[OF this Cons.IH[OF Cons.prems]] show ?case by simp
qed

lemma reaches_star:
  "list_all (charSetMatches f i its) w \<Longrightarrow>
   reaches f (Repeat 0 None True (Chars i its)) (w @ rest, cs) (rest, cs)"
proof (induction w)
  case Nil
  show ?case
    unfolding reaches_def
  proof
    fix p
    show "\<exists>q. (q, fst (rest, cs), snd (rest, cs))
            \<in> set (m f (Repeat 0 None True (Chars i its)) (p, fst ([] @ rest, cs), snd ([] @ rest, cs)))"
      by (cases rest) (auto simp: star_Chars simp del: m.simps(6))
  qed
next
  case (Cons c w)
  then have c: "charSetMatches f i its c" and w: "list_all (charSetMatches f i its) w" by simp_all
  from Cons.IH[OF w] show ?case
    unfolding reaches_def using c by (simp add: star_Chars del: m.simps(6))
qed

lemma reaches_plus:
  "charSetMatches f i its c \<Longrightarrow> list_all (charSetMatches f i its) w \<Longrightarrow>
   reaches f (Repeat (Suc 0) None True (Chars i its)) (c # w @ rest, cs) (rest, cs)"
  using reaches_star[of f i its w rest cs]
  unfolding reaches_def by (simp add: plus_Chars del: m.simps(6))

lemma reaches_opt:
  "quote = [] \<or> (\<exists>c. quote = [c] \<and> charSetMatches f False [Single a] c) \<Longrightarrow>
   reaches f (Repeat 0 (Some (Suc 0)) True (lit a)) (quote @ rest, cs) (rest, cs)"
proof (erule disjE)
  assume "quote = []"
  then show ?thesis
    unfolding reaches_def by (cases rest) (auto simp: opt_lit simp del: m.simps(6))
next
  assume "\<exists>c. quote = [c] \<and> charSetMatches f False [Single a] c"
  then show ?thesis
    unfolding reaches_def by (auto simp: opt_lit simp del: m.simps(6))
qed

lemma reaches_opt_stay: "reaches f (Repeat 0 (Some (Suc 0)) True r) a a"
  unfolding reaches_def
proof
  fix p
  have "(p, fst a, snd a) \<in> set (m f (Repeat 0 (Some (Suc 0)) True r) (p, fst a, snd a))"
    by (rule opt_contains)
  then show "\<exists>q. (q, fst a, snd a) \<in> set (m f (Repeat 0 (Some (Suc 0)) True r) (p, fst a, snd a))"
    by (rule exI)
qed

lemma reaches_Group:
  assumes "reaches f r (xs, cs) (ys, cs')"
  shows "reaches f (Group k r) (xs, cs) (ys, cs'[k - 1 := Some (take (length xs - length ys) xs)])"
  unfolding reaches_def
proof
  fix p
  from assms obtain q where q: "(q, ys, cs') \<in> set (m f r (p, xs, cs))"
    unfolding reaches_def by auto
  have "(q, ys, cs'[k - 1 := Some (take (length xs - length ys) xs)])
          \<in> set (m f (Group k r) (p, xs, cs))"
    using q by (auto intro!: image_eqI[where x = "(q, ys, cs')"])
  then show "\<exists>q. (q, fst (ys, cs'[k - 1 := Some (take (length xs - length ys) xs)]),
                     snd (ys, cs'[k - 1 := Some (take (length xs - length ys) xs)]))
               \<in> set (m f (Group k r) (p, fst (xs, cs), snd (xs, cs)))"
    by (simp only: fst_conv snd_conv) (rule exI)
qed

lemma list_all_implies: "list_all P xs \<Longrightarrow> (\<And>x. P x \<Longrightarrow> Q x) \<Longrightarrow> list_all Q xs"
  by (induction xs) auto

lemma contentTypeHeaderPattern_tail: "contentTypeHeaderPattern = seqOf (LineStart # headerTail)"
  by (simp add: contentTypeHeaderPattern_def headerTail_def subtypeTail_def boundaryTail_def
        whiteSpace_def)

lemma reaches_boundaryTail:
  assumes "quote = [] \<or> quote = [0x22]" and "v \<noteq> 0x22" and "\<not> isWhiteSpace v"
  shows "reaches flags_im (seqOf boundaryTail) (quote @ v # rest, cs) (rest, cs[0 := Some [v]])"
proof -
  have a: "reaches flags_im (Repeat 0 (Some (Suc 0)) True (lit 0x22)) (quote @ v # rest, cs) (v # rest, cs)"
    using assms(1) by (intro reaches_opt) (auto simp: lit_im equalIgnoringCase_def)
  have "reaches flags_im (Repeat (Suc 0) None True (Chars True [Single 0x22, Escape Space]))
          (v # [] @ rest, cs) (rest, cs)"
    by (rule reaches_plus) (simp_all add: value_im assms)
  from reaches_Group[OF this, of "Suc 0"]
  have b: "reaches flags_im
             (Group (Suc 0) (Repeat (Suc 0) None True (Chars True [Single 0x22, Escape Space])))
             (v # rest, cs) (rest, cs[0 := Some [v]])"
    by simp
  have c: "reaches flags_im (seqOf [Repeat 0 (Some (Suc 0)) True (lit 0x22)])
             (rest, cs[0 := Some [v]]) (rest, cs[0 := Some [v]])"
    using reaches_opt_stay by simp
  show ?thesis
    unfolding boundaryTail_def
    by (rule reaches_seqOf_Cons[OF a reaches_seqOf_Cons[OF b c]])
qed

lemma reaches_subtypeTail:
  assumes "isSubtypeChar s0" and "list_all isSubtypeChar subtype"
    and "list_all isWhiteSpace ws2"
    and "sameIgnoringCase bd (asc ''boundary='')"
    and "quote = [] \<or> quote = [0x22]" and "v \<noteq> 0x22" and "\<not> isWhiteSpace v"
  shows "reaches flags_im (seqOf subtypeTail)
           (s0 # subtype @ 59 # ws2 @ bd @ quote @ v # rest, cs) (rest, cs[0 := Some [v]])"
proof -
  note t = reaches_boundaryTail[OF assms(5,6,7), of rest cs]
  have d: "reaches flags_im (seqOf (map lit (asc ''boundary='') @ boundaryTail))
             (bd @ quote @ v # rest, cs) (rest, cs[0 := Some [v]])"
    by (rule reaches_lits[OF assms(4) t])
  have c: "reaches flags_im (Repeat 0 None True (Chars False [Escape Space]))
             (ws2 @ bd @ quote @ v # rest, cs) (bd @ quote @ v # rest, cs)"
    by (rule reaches_star) (rule list_all_implies[OF assms(3)], rule space_im)
  have b: "reaches flags_im (lit 59) (59 # ws2 @ bd @ quote @ v # rest, cs)
             (ws2 @ bd @ quote @ v # rest, cs)"
    by (simp add: reaches_def lit_def lit_im equalIgnoringCase_def)
  have a: "reaches flags_im
             (Repeat (Suc 0) None True
               (Chars False [Range 97 122, Range 65 90, Range 48 57, Single 46, Single 95, Single 45]))
             (s0 # subtype @ 59 # ws2 @ bd @ quote @ v # rest, cs)
             (59 # ws2 @ bd @ quote @ v # rest, cs)"
    by (rule reaches_plus) (rule subtype_im[OF assms(1)],
        rule list_all_implies[OF assms(2)], rule subtype_im)
  show ?thesis
    unfolding subtypeTail_def
    by (rule reaches_seqOf_Cons[OF a reaches_seqOf_Cons[OF b reaches_seqOf_Cons[OF c d]]])
qed

lemma reaches_headerTail:
  assumes "sameIgnoringCase name (asc ''Content-Type:'')"
    and "list_all isWhiteSpace ws1"
    and "sameIgnoringCase mp (asc ''multipart/'')"
    and "isSubtypeChar s0" and "list_all isSubtypeChar subtype"
    and "list_all isWhiteSpace ws2"
    and "sameIgnoringCase bd (asc ''boundary='')"
    and "quote = [] \<or> quote = [0x22]" and "v \<noteq> 0x22" and "\<not> isWhiteSpace v"
  shows "reaches flags_im (seqOf headerTail)
           (name @ ws1 @ mp @ s0 # subtype @ 59 # ws2 @ bd @ quote @ v # rest, cs)
           (rest, cs[0 := Some [v]])"
proof -
  note t = reaches_subtypeTail[OF assms(4,5,6,7,8,9,10), of rest cs]
  have c: "reaches flags_im (seqOf (map lit (asc ''multipart/'') @ subtypeTail))
             (mp @ s0 # subtype @ 59 # ws2 @ bd @ quote @ v # rest, cs) (rest, cs[0 := Some [v]])"
    by (rule reaches_lits[OF assms(3) t])
  have b: "reaches flags_im (Repeat 0 None True (Chars False [Escape Space]))
             (ws1 @ mp @ s0 # subtype @ 59 # ws2 @ bd @ quote @ v # rest, cs)
             (mp @ s0 # subtype @ 59 # ws2 @ bd @ quote @ v # rest, cs)"
    by (rule reaches_star) (rule list_all_implies[OF assms(2)], rule space_im)
  have "reaches flags_im
          (seqOf (Repeat 0 None True (Chars False [Escape Space])
                  # map lit (asc ''multipart/'') @ subtypeTail))
          (ws1 @ mp @ s0 # subtype @ 59 # ws2 @ bd @ quote @ v # rest, cs) (rest, cs[0 := Some [v]])"
    by (rule reaches_seqOf_Cons[OF b c])
  from reaches_lits[OF assms(1) this] show ?thesis
    unfolding headerTail_def .
qed

lemma search_finds: "M (p @ a) b \<noteq> None \<Longrightarrow> search M p (a @ b) \<noteq> None"
proof (induction a arbitrary: p)
  case Nil
  then show ?case by (cases b) auto
next
  case (Cons c a)
  from Cons.prems have "M ((p @ [c]) @ a) b \<noteq> None" by simp
  from Cons.IH[OF this] show ?case by (auto split: option.splits)
qed

lemma header_line_matches:
  assumes "pre = [] \<or> isLineTerminator (last pre)"
    and "sameIgnoringCase name (asc ''Content-Type:'')"
    and "list_all isWhiteSpace ws1"
    and "sameIgnoringCase mp (asc ''multipart/'')"
    and "subtype \<noteq> []" and "list_all isSubtypeChar subtype"
    and "list_all isWhiteSpace ws2"
    and "sameIgnoringCase bd (asc ''boundary='')"
    and "quote = [] \<or> quote = [0x22]" and "v \<noteq> 0x22" and "\<not> isWhiteSpace v"
  shows "matchStr (compile flags_im contentTypeHeaderPattern)
           (pre @ name @ ws1 @ mp @ subtype @ 59 # ws2 @ bd @ quote @ v # rest) \<noteq> None"
proof -
  from assms(5) obtain s0 sub' where st: "subtype = s0 # sub'" by (cases subtype) auto
  with assms(6) have s: "isSubtypeChar s0" "list_all isSubtypeChar sub'" by simp_all
  define line where "line = name @ ws1 @ mp @ subtype @ 59 # ws2 @ bd @ quote @ v # rest"
  from reaches_headerTail[OF assms(2,3,4) s assms(7,8,9,10,11), of rest "[None]"]
  obtain q where q: "(q, rest, [Some [v]]) \<in> set (m flags_im (seqOf headerTail) (lastUnit pre, line, [None]))"
    unfolding reaches_def line_def st by auto
  have ls: "m flags_im LineStart (lastUnit pre, line, [None]) = [(lastUnit pre, line, [None])]"
    using assms(1) by (auto simp: lastUnit_def flags_im_def)
  have ht: "headerTail \<noteq> []" by (simp add: headerTail_def asc_def)
  then obtain h hs where hh: "headerTail = h # hs" by (cases headerTail) auto
  have "m flags_im contentTypeHeaderPattern (lastUnit pre, line, [None])
          = m flags_im (seqOf headerTail) (lastUnit pre, line, [None])"
    unfolding contentTypeHeaderPattern_tail hh using ls by simp
  with q have ne: "m flags_im contentTypeHeaderPattern (lastUnit pre, line, [None]) \<noteq> []"
    by auto
  have g: "length (groupsOf contentTypeHeaderPattern) = 1"
    by (simp add: contentTypeHeaderPattern_def asc_def lit_def whiteSpace_def)
  have "compile flags_im contentTypeHeaderPattern ([] @ pre) line \<noteq> None"
    using ne by (auto simp: compile_def g split: list.splits)
  from search_finds[of "compile flags_im contentTypeHeaderPattern" "[]" pre line, OF this]
  show ?thesis
    by (simp add: matchStr_def line_def)
qed

text \<open>
  Claim C8, as amended. When the header block holds, at the start of a line, the name
  \<open>Content-Type:\<close>, optional white space, \<open>multipart/\<close>, a subtype of letters, digits,
  \<open>.\<close>, \<open>_\<close> and \<open>-\<close>, then directly \<open>;\<close>, optional white space, \<open>boundary=\<close>, an optional
  double quote and a character that is neither a double quote nor white space (names in any
  case), and the body after the separator is not empty, \<open>extractEmailBody\<close> takes the
  multipart branch.
\<close>

theorem multipart_branch_taken:
  assumes "indexOf rawEmailContent CRLFCRLF = Some i"
    and "substring rawEmailContent 0 i
           = pre @ name @ ws1 @ mp @ subtype @ cu CHR '';'' # ws2 @ bd @ quote @ v # rest"
    and "pre = [] \<or> isLineTerminator (last pre)"
    and "sameIgnoringCase name (asc ''Content-Type:'')"
    and "list_all isWhiteSpace ws1"
    and "sameIgnoringCase mp (asc ''multipart/'')"
    and "subtype \<noteq> []" and "list_all isSubtypeChar subtype"
    and "list_all isWhiteSpace ws2"
    and "sameIgnoringCase bd (asc ''boundary='')"
    and "quote = [] \<or> quote = [0x22]" and "v \<noteq> 0x22" and "\<not> isWhiteSpace v"
    and "substringFrom rawEmailContent (i + 4) \<noteq> []"
  shows "\<exists>contentTypeHeaderMatch.
           matchStr (compile flags_im contentTypeHeaderPattern) (substring rawEmailContent 0 i)
             = Some contentTypeHeaderMatch
         \<and> extractEmailBody host rawEmailContent con
             = multipartBranch host contentTypeHeaderMatch (substringFrom rawEmailContent (i + 4)) con"
proof -
  from header_line_matches[OF assms(3-13), of rest] assms(2)
  obtain cs where cs: "matchStr (compile flags_im contentTypeHeaderPattern) (substring rawEmailContent 0 i) = Some cs"
    by auto
  with assms(1,14) have "multipartInput rawEmailContent = Some (cs, substringFrom rawEmailContent (i + 4))"
    by (simp add: multipartInput_def)
  from extractEmailBody_multipart[OF this] cs show ?thesis by simp
qed

theorem multipart_branch_taken_witness:
  "fst (extractEmailBody noHost foldedHeaderMessage []) = Inr (asc ''hello'')"
proof -
  have 1: "indexOf foldedHeaderMessage CRLFCRLF = Some 57"
    by code_simp
  have 2: \<open>substring foldedHeaderMessage 0 57
           = (asc ''From: a@b'' @ CRLF) @ asc ''content-type:'' @ asc '' '' @ asc ''Multipart/'' @
             asc ''Mixed'' @ cu CHR '';'' # (CRLF @ asc '' '') @ asc ''boundary='' @ [0x22] @
             cu CHR ''b'' # asc ''1"''\<close>
    by code_simp
  have 3: "asc ''From: a@b'' @ CRLF = [] \<or> isLineTerminator (last (asc ''From: a@b'' @ CRLF))"
    by code_simp
  have 4: "sameIgnoringCase (asc ''content-type:'') (asc ''Content-Type:'')"
    by code_simp
  have 5: "list_all isWhiteSpace (asc '' '')"
    by code_simp
  have 6: "sameIgnoringCase (asc ''Multipart/'') (asc ''multipart/'')"
    by code_simp
  have 7: "asc ''Mixed'' \<noteq> []" "list_all isSubtypeChar (asc ''Mixed'')"
    by code_simp+
  have 8: "list_all isWhiteSpace (CRLF @ asc '' '')"
    by code_simp
  have 9: "sameIgnoringCase (asc ''boundary='') (asc ''boundary='')"
    by code_simp
  have 10: "[0x22] = [] \<or> [0x22] = [0x22 :: codeunit]" "cu CHR ''b'' \<noteq> (0x22 :: codeunit)"
    "\<not> isWhiteSpace (cu CHR ''b'')"
    by code_simp+
  have 11: "substringFrom foldedHeaderMessage (57 + 4) \<noteq> []"
    by code_simp
  have m: \<open>matchStr (compile flags_im contentTypeHeaderPattern) (substring foldedHeaderMessage 0 57)
            = Some [Some (asc ''b1'')]\<close>
    by code_simp
  have b: "fst (multipartBranch noHost [Some (asc ''b1'')] (substringFrom foldedHeaderMessage (57 + 4)) [])
             = Inr (asc ''hello'')"
    by code_simp
  from multipart_branch_taken [OF 1 2 3 4 5 6 7 8 9 10 11, of noHost "[]"] m b
  show ?thesis by simp
qed

text \<open>
  Claim C8 as stated fails: in this message the value of \<open>Content-Type\<close> begins with
  \<open>multipart/\<close> and carries a boundary parameter, after a \<open>charset\<close> parameter, and the body
  is not empty; the single-part branch is taken, and the result is the body undivided.
\<close>

theorem multipart_branch_counterexample:
  "multipartInput charsetFirstMessage = None
   \<and> fst (extractEmailBody noHost charsetFirstMessage [])
       = Inr (asc ''--b1'' @ CRLF @ asc ''Content-Type: text/plain'' @ CRLF @ CRLF @
              asc ''plain text'' @ CRLF @ asc ''--b1--'')"
  by code_simp


end
